theory Spec2Isabelle
  imports Main "HOL-Library.Product_Lexorder"
begin

section \<open>Strings and errors\<close>

text \<open>
  A Python \<open>str\<close> is a sequence of code points. It is modelled as a HOL \<open>string\<close>: a list
  of \<open>char\<close>, each read as one code point in the range 0..255 (the Latin-1 row of
  Unicode). \<open>length\<close> therefore counts code points, as \<open>len\<close> does.

  Exceptions are values: every operation that can raise returns \<open>error + 'a\<close>, and an
  operation that mutates a record returns the record as the call leaves it, also when
  the call raises.
\<close>

datatype error = ValueError | OverflowError

type_synonym 'a result = "error + 'a"

text \<open>
  \<open>str.isdigit\<close> of the interpreter: true of a non-empty string all of whose characters
  have the Unicode property Numeric_Type=Digit or Numeric_Type=Decimal. Below code point
  256 these are the ASCII digits U+0030..U+0039 and the superscripts U+00B2, U+00B3 and
  U+00B9.
\<close>

definition isdigit_char :: "char \<Rightarrow> bool" where
  "isdigit_char c =
     (let n = (of_char c :: nat)
      in (48 \<le> n \<and> n \<le> 57) \<or> n = 178 \<or> n = 179 \<or> n = 185)"

definition isdigit :: "string \<Rightarrow> bool" where
  "isdigit s = (s \<noteq> [] \<and> list_all isdigit_char s)"

text \<open>The decimal digits \<open>0\<close> to \<open>9\<close>, as the specification names them.\<close>

definition decimal_digit :: "char \<Rightarrow> bool" where
  "decimal_digit c = (48 \<le> (of_char c :: nat) \<and> (of_char c :: nat) \<le> 57)"

definition ten_decimal_digits :: "string \<Rightarrow> bool" where
  "ten_decimal_digits s = (length s = 10 \<and> list_all decimal_digit s)"

section \<open>Fields\<close>

datatype Name = Name (name_value: string)

datatype Phone = Phone (phone_value: string)

text \<open>\<open>Name.__init__\<close>: \<open>not value\<close> is true of the empty string only.\<close>

definition Name_init :: "string \<Rightarrow> Name result" where
  "Name_init v = (if v = [] then Inl ValueError else Inr (Name v))"

definition validate_phone :: "string \<Rightarrow> bool" where
  "validate_phone v = (isdigit v \<and> length v = 10)"

definition Phone_init :: "string \<Rightarrow> Phone result" where
  "Phone_init v = (if \<not> validate_phone v then Inl ValueError else Inr (Phone v))"

section \<open>Dates and times of the interpreter\<close>

text \<open>
  The class \<open>datetime\<close> of the standard library, as far as the program uses it: the
  seven fields, the constructor's range checks, \<open>replace(year=...)\<close>, the comparison, the
  sum with \<open>timedelta(days=...)\<close> and the \<open>days\<close> of a difference. The day arithmetic goes
  through the proleptic Gregorian ordinal, as in the library.
\<close>

record datetime =
  year :: int
  month :: int
  day :: int
  hour :: int
  minute :: int
  second :: int
  microsecond :: int

definition MINYEAR :: int where
  "MINYEAR = 1"

definition MAXYEAR :: int where
  "MAXYEAR = 9999"

definition MAXORDINAL :: int where
  "MAXORDINAL = 3652059"

definition DAYS_IN_MONTH :: "int list" where
  "DAYS_IN_MONTH = [-1, 31, 28, 31, 30, 31, 30, 31, 31, 30, 31, 30, 31]"

definition DAYS_BEFORE_MONTH :: "int list" where
  "DAYS_BEFORE_MONTH = [-1, 0, 31, 59, 90, 120, 151, 181, 212, 243, 273, 304, 334]"

definition is_leap :: "int \<Rightarrow> bool" where
  "is_leap y = (y mod 4 = 0 \<and> (y mod 100 \<noteq> 0 \<or> y mod 400 = 0))"

definition days_before_year :: "int \<Rightarrow> int" where
  "days_before_year y0 = (let y = y0 - 1 in y * 365 + y div 4 - y div 100 + y div 400)"

definition days_in_month :: "int \<Rightarrow> int \<Rightarrow> int" where
  "days_in_month y m = (if m = 2 \<and> is_leap y then 29 else DAYS_IN_MONTH ! nat m)"

definition days_before_month :: "int \<Rightarrow> int \<Rightarrow> int" where
  "days_before_month y m =
     DAYS_BEFORE_MONTH ! nat m + (if m > 2 \<and> is_leap y then 1 else 0)"

definition ymd2ord :: "int \<Rightarrow> int \<Rightarrow> int \<Rightarrow> int" where
  "ymd2ord y m d = days_before_year y + days_before_month y m + d"

text \<open>
  The inverse walks down the 400, 100, 4 and 1 year cycles and then estimates the month,
  which is either right or one too large.
\<close>

definition ord2ymd :: "int \<Rightarrow> int \<times> int \<times> int" where
  "ord2ymd n0 =
     (let n = n0 - 1;
          n400 = n div 146097; n = n mod 146097;
          y = n400 * 400 + 1;
          n100 = n div 36524; n = n mod 36524;
          n4 = n div 1461; n = n mod 1461;
          n1 = n div 365; n = n mod 365;
          y = y + n100 * 100 + n4 * 4 + n1
      in if n1 = 4 \<or> n100 = 4 then (y - 1, 12, 31)
         else
           let leapyear = (n1 = 3 \<and> (n4 \<noteq> 24 \<or> n100 = 3));
               m = (n + 50) div 32;
               preceding = DAYS_BEFORE_MONTH ! nat m + (if m > 2 \<and> leapyear then 1 else 0)
           in if preceding > n
              then let m' = m - 1;
                       preceding' = preceding
                         - (DAYS_IN_MONTH ! nat m' + (if m' = 2 \<and> leapyear then 1 else 0))
                   in (y, m', n - preceding' + 1)
              else (y, m, n - preceding + 1))"

definition check_date_fields :: "int \<Rightarrow> int \<Rightarrow> int \<Rightarrow> bool" where
  "check_date_fields y m d =
     (MINYEAR \<le> y \<and> y \<le> MAXYEAR \<and> 1 \<le> m \<and> m \<le> 12 \<and> 1 \<le> d \<and> d \<le> days_in_month y m)"

definition check_time_fields :: "int \<Rightarrow> int \<Rightarrow> int \<Rightarrow> int \<Rightarrow> bool" where
  "check_time_fields h mi s us =
     (0 \<le> h \<and> h \<le> 23 \<and> 0 \<le> mi \<and> mi \<le> 59 \<and> 0 \<le> s \<and> s \<le> 59 \<and> 0 \<le> us \<and> us \<le> 999999)"

text \<open>The constructor: it raises \<open>ValueError\<close> unless every field is in range.\<close>

definition datetime_new ::
  "int \<Rightarrow> int \<Rightarrow> int \<Rightarrow> int \<Rightarrow> int \<Rightarrow> int \<Rightarrow> int \<Rightarrow> datetime result" where
  "datetime_new y m d h mi s us =
     (if check_date_fields y m d \<and> check_time_fields h mi s us
      then Inr \<lparr>year = y, month = m, day = d, hour = h, minute = mi, second = s,
                microsecond = us\<rparr>
      else Inl ValueError)"

text \<open>Every \<open>datetime\<close> object satisfies the constructor's checks.\<close>

definition valid_datetime :: "datetime \<Rightarrow> bool" where
  "valid_datetime t =
     (check_date_fields (year t) (month t) (day t)
      \<and> check_time_fields (hour t) (minute t) (second t) (microsecond t))"

text \<open>\<open>t.replace(year=y)\<close> builds a new object from the fields, through the constructor.\<close>

definition replace_year :: "datetime \<Rightarrow> int \<Rightarrow> datetime result" where
  "replace_year t y =
     datetime_new y (month t) (day t) (hour t) (minute t) (second t) (microsecond t)"

text \<open>The comparison is the lexicographic one on the seven fields.\<close>

definition dt_key :: "datetime \<Rightarrow> int \<times> int \<times> int \<times> int \<times> int \<times> int \<times> int" where
  "dt_key t = (year t, month t, day t, hour t, minute t, second t, microsecond t)"

definition dt_lt :: "datetime \<Rightarrow> datetime \<Rightarrow> bool" where
  "dt_lt a b = (dt_key a < dt_key b)"

definition dt_le :: "datetime \<Rightarrow> datetime \<Rightarrow> bool" where
  "dt_le a b = (dt_key a \<le> dt_key b)"

definition toordinal :: "datetime \<Rightarrow> int" where
  "toordinal t = ymd2ord (year t) (month t) (day t)"

text \<open>
  \<open>t + timedelta(days=n)\<close>. The \<open>timedelta\<close> constructor raises \<open>OverflowError\<close> when
  \<open>n\<close> has magnitude above 999999999; the sum keeps the time of day, moves the ordinal by
  \<open>n\<close> and raises \<open>OverflowError\<close> when the ordinal leaves 1..\<open>MAXORDINAL\<close>.
\<close>

definition shifted :: "datetime \<Rightarrow> int \<Rightarrow> datetime" where
  "shifted t n =
     (case ord2ymd (toordinal t + n) of
        (y, m, d) \<Rightarrow> t\<lparr>year := y, month := m, day := d\<rparr>)"

definition add_days :: "datetime \<Rightarrow> int \<Rightarrow> datetime result" where
  "add_days t n =
     (if \<bar>n\<bar> > 999999999 then Inl OverflowError
      else if 0 < toordinal t + n \<and> toordinal t + n \<le> MAXORDINAL then Inr (shifted t n)
      else Inl OverflowError)"

text \<open>
  \<open>(a - b).days\<close>: a \<open>timedelta\<close> is normalised so that its seconds and microseconds are
  not negative, hence \<open>days\<close> is the floor of the difference measured in days.
\<close>

definition sub_days :: "datetime \<Rightarrow> datetime \<Rightarrow> int" where
  "sub_days a b =
     (let days = toordinal a - toordinal b;
          secs = (second a + minute a * 60 + hour a * 3600)
                 - (second b + minute b * 60 + hour b * 3600);
          us = microsecond a - microsecond b
      in (days * 86400000000 + secs * 1000000 + us) div 86400000000)"

section \<open>Parsing and rendering a date\<close>

text \<open>
  \<open>strftime("%d.%m.%Y")\<close> hands the format to the C library: the day and the month are
  written with two digits, zero filled, and the year as a decimal number without zero
  fill, so that a year below 1000 has fewer than four digits.
\<close>

definition digit_char :: "int \<Rightarrow> char" where
  "digit_char n = char_of (48 + nat n)"

definition pad2 :: "int \<Rightarrow> string" where
  "pad2 n = [digit_char (n div 10 mod 10), digit_char (n mod 10)]"

function decimal :: "int \<Rightarrow> string" where
  "decimal n =
     (if n < 10 then [digit_char n] else decimal (n div 10) @ [digit_char (n mod 10)])"
  by pat_completeness auto
termination
  by (relation "measure nat") auto

declare decimal.simps [simp del]

definition strftime :: "datetime \<Rightarrow> string" where
  "strftime t = pad2 (day t) @ ''.'' @ pad2 (month t) @ ''.'' @ decimal (year t)"

text \<open>The four digits of a number from 1000 to 9999, named for the proofs.\<close>

definition pad4 :: "int \<Rightarrow> string" where
  "pad4 n = [digit_char (n div 1000 mod 10), digit_char (n div 100 mod 10),
             digit_char (n div 10 mod 10), digit_char (n mod 10)]"

text \<open>
  \<open>strptime(value, "%d.%m.%Y")\<close> compiles the format to the regular expression
  \<^verbatim>\<open>(3[0-1]|[1-2]\d|0[1-9]|[1-9]| [1-9])\.(1[0-2]|0[1-9]|[1-9])\.(\d\d\d\d)\<close>,
  matches it at the start of the string, raises \<open>ValueError\<close> when there is no match or
  when text remains after the match, converts the three groups with \<open>int\<close> and builds the
  date through the constructor, at midnight. Each group lists its matches in the order of
  its alternatives, each with the text that follows; the first complete match is taken, as
  a backtracking matcher does.
\<close>

definition in_range :: "char \<Rightarrow> char \<Rightarrow> char \<Rightarrow> bool" where
  "in_range lo hi c = ((of_char lo :: nat) \<le> of_char c \<and> (of_char c :: nat) \<le> of_char hi)"

definition digit_val :: "char \<Rightarrow> int" where
  "digit_val c = int (of_char c) - 48"

definition num :: "string \<Rightarrow> int" where
  "num s = foldl (\<lambda>n c. 10 * n + digit_val c) 0 s"

fun group_d :: "string \<Rightarrow> (int \<times> string) list" where
  "group_d (a # b # rest) =
     (if a = CHR ''3'' \<and> in_range (CHR ''0'') (CHR ''1'') b then [(num [a, b], rest)] else []) @
     (if in_range (CHR ''1'') (CHR ''2'') a \<and> decimal_digit b then [(num [a, b], rest)] else []) @
     (if a = CHR ''0'' \<and> in_range (CHR ''1'') (CHR ''9'') b then [(num [a, b], rest)] else []) @
     (if in_range (CHR ''1'') (CHR ''9'') a then [(num [a], b # rest)] else []) @
     (if a = CHR '' '' \<and> in_range (CHR ''1'') (CHR ''9'') b then [(num [b], rest)] else [])"
| "group_d [a] = (if in_range (CHR ''1'') (CHR ''9'') a then [(num [a], [])] else [])"
| "group_d [] = []"

fun group_m :: "string \<Rightarrow> (int \<times> string) list" where
  "group_m (a # b # rest) =
     (if a = CHR ''1'' \<and> in_range (CHR ''0'') (CHR ''2'') b then [(num [a, b], rest)] else []) @
     (if a = CHR ''0'' \<and> in_range (CHR ''1'') (CHR ''9'') b then [(num [a, b], rest)] else []) @
     (if in_range (CHR ''1'') (CHR ''9'') a then [(num [a], b # rest)] else [])"
| "group_m [a] = (if in_range (CHR ''1'') (CHR ''9'') a then [(num [a], [])] else [])"
| "group_m [] = []"

fun group_Y :: "string \<Rightarrow> (int \<times> string) list" where
  "group_Y (a # b # c # d # rest) =
     (if decimal_digit a \<and> decimal_digit b \<and> decimal_digit c \<and> decimal_digit d
      then [(num [a, b, c, d], rest)] else [])"
| "group_Y s = []"

fun dot :: "string \<Rightarrow> string list" where
  "dot (a # rest) = (if a = CHR ''.'' then [rest] else [])"
| "dot [] = []"

definition match_format :: "string \<Rightarrow> (int \<times> int \<times> int \<times> string) list" where
  "match_format s =
     List.bind (group_d s) (\<lambda>(d, r1).
     List.bind (dot r1) (\<lambda>r2.
     List.bind (group_m r2) (\<lambda>(m, r3).
     List.bind (dot r3) (\<lambda>r4.
     map (\<lambda>(y, r5). (d, m, y, r5)) (group_Y r4)))))"

definition strptime :: "string \<Rightarrow> datetime result" where
  "strptime s =
     (case match_format s of
        [] \<Rightarrow> Inl ValueError
      | (d, m, y, rest) # _ \<Rightarrow>
          if rest \<noteq> [] then Inl ValueError else datetime_new y m d 0 0 0 0)"

datatype Birthday = Birthday (birthday_value: datetime)

text \<open>\<open>Birthday.__init__\<close>: a \<open>ValueError\<close> of the parser is raised again as \<open>ValueError\<close>.\<close>

definition Birthday_init :: "string \<Rightarrow> Birthday result" where
  "Birthday_init v =
     (case strptime v of
        Inl e \<Rightarrow> Inl ValueError
      | Inr t \<Rightarrow> Inr (Birthday t))"

section \<open>Records\<close>

record Record =
  name :: Name
  phones :: "Phone list"
  birthday :: "Birthday option"

text \<open>\<open>Record.__init__\<close>: the name is validated, the phone list starts empty.\<close>

definition Record_init :: "string \<Rightarrow> Record result" where
  "Record_init n =
     (case Name_init n of
        Inl e \<Rightarrow> Inl e
      | Inr nm \<Rightarrow> Inr \<lparr>name = nm, phones = [], birthday = None\<rparr>)"

text \<open>\<open>find_phone\<close>: the first phone whose value equals the argument, or \<open>None\<close>.\<close>

fun find_in :: "Phone list \<Rightarrow> string \<Rightarrow> Phone option" where
  "find_in [] phone = None"
| "find_in (p # ps) phone = (if phone_value p = phone then Some p else find_in ps phone)"

definition find_phone :: "Record \<Rightarrow> string \<Rightarrow> Phone option" where
  "find_phone r phone = find_in (phones r) phone"

text \<open>
  \<open>add_phone\<close>: the phone is constructed first; when the constructor raises, nothing has
  been appended.
\<close>

definition add_phone :: "Record \<Rightarrow> string \<Rightarrow> unit result \<times> Record" where
  "add_phone r phone =
     (case Phone_init phone of
        Inl e \<Rightarrow> (Inl e, r)
      | Inr p \<Rightarrow> (Inr (), r\<lparr>phones := phones r @ [p]\<rparr>))"

text \<open>
  \<open>remove_phone\<close>: \<open>list.remove\<close> deletes the first element equal to the phone found,
  which is the first phone with that value.
\<close>

definition remove_phone :: "Record \<Rightarrow> string \<Rightarrow> Record" where
  "remove_phone r phone =
     (case find_phone r phone of
        None \<Rightarrow> r
      | Some p \<Rightarrow> r\<lparr>phones := remove1 p (phones r)\<rparr>)"

text \<open>
  \<open>edit_phone\<close>: when the old phone is found it is removed, and then \<open>add_phone\<close> runs on
  the record without it.
\<close>

definition edit_phone :: "Record \<Rightarrow> string \<Rightarrow> string \<Rightarrow> unit result \<times> Record" where
  "edit_phone r old_phone new_phone =
     (case find_phone r old_phone of
        None \<Rightarrow> (Inr (), r)
      | Some p \<Rightarrow> add_phone (r\<lparr>phones := remove1 p (phones r)\<rparr>) new_phone)"

definition add_birthday :: "Record \<Rightarrow> string \<Rightarrow> unit result \<times> Record" where
  "add_birthday r v =
     (case Birthday_init v of
        Inl e \<Rightarrow> (Inl e, r)
      | Inr b \<Rightarrow> (Inr (), r\<lparr>birthday := Some b\<rparr>))"

text \<open>
  \<open>days_to_birthday\<close>, as a function of the value that \<open>datetime.today()\<close> returns:
  the argument \<open>today\<close> is that reading, a date with its time of day. The operation with
  the clock itself is \<open>days_to_birthday_clock\<close> below.
\<close>

definition days_to_birthday :: "Record \<Rightarrow> datetime \<Rightarrow> int option result" where
  "days_to_birthday r today =
     (case birthday r of
        None \<Rightarrow> Inr None
      | Some b \<Rightarrow>
          (case replace_year (birthday_value b) (year today) of
             Inl e \<Rightarrow> Inl e
           | Inr next_birthday \<Rightarrow>
               if dt_lt next_birthday today
               then (case replace_year (birthday_value b) (year today + 1) of
                       Inl e \<Rightarrow> Inl e
                     | Inr next_birthday' \<Rightarrow> Inr (Some (sub_days next_birthday' today)))
               else Inr (Some (sub_days next_birthday today))))"

fun join :: "string \<Rightarrow> string list \<Rightarrow> string" where
  "join sep [] = []"
| "join sep [x] = x"
| "join sep (x # y # ys) = x @ sep @ join sep (y # ys)"

definition Record_str :: "Record \<Rightarrow> string" where
  "Record_str r =
     ''Contact name: '' @ name_value (name r) @ '', phones: ''
     @ join ''; '' (map phone_value (phones r)) @ '', birthday: ''
     @ (case birthday r of
          Some b \<Rightarrow> strftime (birthday_value b)
        | None \<Rightarrow> ''No birthday'')"

section \<open>The address book\<close>

text \<open>
  The dictionary of the book keeps its keys in insertion order: it is a list of pairs with
  distinct keys. Storing under a key that is present replaces the value in place, storing
  under a new key appends.
\<close>

type_synonym AddressBook = "(string \<times> Record) list"

fun setitem :: "AddressBook \<Rightarrow> string \<Rightarrow> Record \<Rightarrow> AddressBook" where
  "setitem [] k v = [(k, v)]"
| "setitem ((k', v') # kvs) k v =
     (if k' = k then (k, v) # kvs else (k', v') # setitem kvs k v)"

fun delitem :: "AddressBook \<Rightarrow> string \<Rightarrow> AddressBook" where
  "delitem [] k = []"
| "delitem ((k', v') # kvs) k = (if k' = k then kvs else (k', v') # delitem kvs k)"

definition add_record :: "AddressBook \<Rightarrow> Record \<Rightarrow> AddressBook" where
  "add_record book r = setitem book (name_value (name r)) r"

definition find_record :: "AddressBook \<Rightarrow> string \<Rightarrow> Record option" where
  "find_record book n = map_of book n"

definition delete :: "AddressBook \<Rightarrow> string \<Rightarrow> AddressBook" where
  "delete book n = (if n \<in> fst ` set book then delitem book n else book)"

definition book_values :: "AddressBook \<Rightarrow> Record list" where
  "book_values book = map snd book"

text \<open>
  \<open>get_upcoming_birthdays\<close>, as a function of the value that \<open>datetime.today()\<close>
  returns. The end of the window is computed before the loop; the loop appends to the
  result list. The operation with the clock itself is \<open>get_upcoming_birthdays_clock\<close>
  below.
\<close>

fun upcoming_loop ::
  "datetime \<Rightarrow> datetime \<Rightarrow> Record list \<Rightarrow> Record list \<Rightarrow> Record list result" where
  "upcoming_loop today end_date [] upcoming = Inr upcoming"
| "upcoming_loop today end_date (r # rs) upcoming =
     (case birthday r of
        None \<Rightarrow> upcoming_loop today end_date rs upcoming
      | Some b \<Rightarrow>
          (case replace_year (birthday_value b) (year today) of
             Inl e \<Rightarrow> Inl e
           | Inr next_birthday \<Rightarrow>
               if dt_le today next_birthday \<and> dt_le next_birthday end_date
               then upcoming_loop today end_date rs (upcoming @ [r])
               else if dt_lt next_birthday today
               then (case replace_year (birthday_value b) (year today + 1) of
                       Inl e \<Rightarrow> Inl e
                     | Inr next_birthday' \<Rightarrow>
                         if dt_le today next_birthday' \<and> dt_le next_birthday' end_date
                         then upcoming_loop today end_date rs (upcoming @ [r])
                         else upcoming_loop today end_date rs upcoming)
               else upcoming_loop today end_date rs upcoming))"

definition get_upcoming_birthdays ::
  "AddressBook \<Rightarrow> int \<Rightarrow> datetime \<Rightarrow> Record list result" where
  "get_upcoming_birthdays book days today =
     (case add_days today days of
        Inl e \<Rightarrow> Inl e
      | Inr end_date \<Rightarrow> upcoming_loop today end_date (book_values book) [])"

section \<open>The operations with the wall clock\<close>

text \<open>
  The source reads the clock itself, with \<open>datetime.today()\<close>. The clock is the sequence
  of the readings it gives and the number of readings taken so far; reading it returns
  the next one. \<open>days_to_birthday\<close> reads it inside the branch of a record that has a
  birthday, \<open>get_upcoming_birthdays\<close> reads it before the loop; the bodies are those of
  the source, line by line.
\<close>

record wall_clock =
  readings :: "nat \<Rightarrow> datetime"
  taken :: nat

definition datetime_today :: "wall_clock \<Rightarrow> datetime \<times> wall_clock" where
  "datetime_today w = (readings w (taken w), w\<lparr>taken := taken w + 1\<rparr>)"

definition days_to_birthday_clock ::
  "Record \<Rightarrow> wall_clock \<Rightarrow> int option result \<times> wall_clock" where
  "days_to_birthday_clock r w =
     (case birthday r of
        None \<Rightarrow> (Inr None, w)
      | Some b \<Rightarrow>
          (case datetime_today w of
             (today, w') \<Rightarrow>
               (case replace_year (birthday_value b) (year today) of
                  Inl e \<Rightarrow> (Inl e, w')
                | Inr next_birthday \<Rightarrow>
                    if dt_lt next_birthday today
                    then (case replace_year (birthday_value b) (year today + 1) of
                            Inl e \<Rightarrow> (Inl e, w')
                          | Inr next_birthday' \<Rightarrow>
                              (Inr (Some (sub_days next_birthday' today)), w'))
                    else (Inr (Some (sub_days next_birthday today)), w'))))"

definition get_upcoming_birthdays_clock ::
  "AddressBook \<Rightarrow> int \<Rightarrow> wall_clock \<Rightarrow> Record list result \<times> wall_clock" where
  "get_upcoming_birthdays_clock book days w =
     (case datetime_today w of
        (today, w') \<Rightarrow>
          (case add_days today days of
             Inl e \<Rightarrow> (Inl e, w')
           | Inr end_date \<Rightarrow> (upcoming_loop today end_date (book_values book) [], w')))"

section \<open>Reachable states\<close>

text \<open>One call of a mutating operation of a record, whether it raises or not.\<close>

inductive record_step :: "Record \<Rightarrow> Record \<Rightarrow> bool" where
  step_add_phone: "record_step r (snd (add_phone r phone))"
| step_remove_phone: "record_step r (remove_phone r phone)"
| step_edit_phone: "record_step r (snd (edit_phone r old_phone new_phone))"
| step_add_birthday: "record_step r (snd (add_birthday r v))"

inductive reachable_record :: "Record \<Rightarrow> bool" where
  reach_init: "Record_init n = Inr r \<Longrightarrow> reachable_record r"
| reach_step: "reachable_record r \<Longrightarrow> record_step r r' \<Longrightarrow> reachable_record r'"

text \<open>
  The books built from the empty one. A record stored in the book is the caller's object
  too, so it can still be mutated in place after it was added: the last rule.
\<close>

inductive reachable_book :: "AddressBook \<Rightarrow> bool" where
  book_empty: "reachable_book []"
| book_add: "reachable_book b \<Longrightarrow> reachable_record r \<Longrightarrow> reachable_book (add_record b r)"
| book_delete: "reachable_book b \<Longrightarrow> reachable_book (delete b n)"
| book_mutate: "reachable_book b \<Longrightarrow> find_record b n = Some r \<Longrightarrow> record_step r r'
     \<Longrightarrow> reachable_book (setitem b n r')"

definition book_inv :: "AddressBook \<Rightarrow> bool" where
  "book_inv b = list_all (\<lambda>(k, r). k \<noteq> [] \<and> name_value (name r) = k) b"

definition phones_valid :: "Record \<Rightarrow> bool" where
  "phones_valid r = list_all (\<lambda>p. validate_phone (phone_value p)) (phones r)"

text \<open>
  The month estimate of \<open>ord2ymd\<close> on its own, for the proofs: \<open>ord2ymd_unfold\<close> shows
  that \<open>ord2ymd\<close> computes it.
\<close>

definition month_day :: "int \<Rightarrow> bool \<Rightarrow> int \<times> int" where
  "month_day n leapyear =
     (let m = (n + 50) div 32;
          preceding = DAYS_BEFORE_MONTH ! nat m + (if m > 2 \<and> leapyear then 1 else 0)
      in if preceding > n
         then let m' = m - 1;
                  preceding' = preceding
                    - (DAYS_IN_MONTH ! nat m' + (if m' = 2 \<and> leapyear then 1 else 0))
              in (m', n - preceding' + 1)
         else (m, n - preceding + 1))"

section \<open>The birthday window, as the specification words it\<close>

text \<open>
  The projection of a birthday: its year replaced by the year of \<open>today\<close>, or by the next
  year when that date is strictly before \<open>today\<close>. Here the year is replaced in the
  record, without the constructor's checks.
\<close>

definition projected :: "datetime \<Rightarrow> datetime \<Rightarrow> datetime" where
  "projected today b =
     (let candidate = b\<lparr>year := year today\<rparr>
      in if dt_lt candidate today then b\<lparr>year := year today + 1\<rparr> else candidate)"

definition in_window :: "datetime \<Rightarrow> datetime \<Rightarrow> Record \<Rightarrow> bool" where
  "in_window today end_date r =
     (case birthday r of
        None \<Rightarrow> False
      | Some b \<Rightarrow> dt_le today (projected today (birthday_value b))
                  \<and> dt_le (projected today (birthday_value b)) end_date)"

definition on_day :: "datetime \<Rightarrow> Record \<Rightarrow> bool" where
  "on_day today r =
     (case birthday r of
        None \<Rightarrow> False
      | Some b \<Rightarrow> projected today (birthday_value b) = today)"

text \<open>
  The projections of a record's birthday exist: its month and day are a date of the year
  of \<open>today\<close> and, when that date is before \<open>today\<close>, of the next year too, no later than
  year 9999.
\<close>

definition projectable :: "datetime \<Rightarrow> Record \<Rightarrow> bool" where
  "projectable today r =
     (case birthday r of
        None \<Rightarrow> True
      | Some b \<Rightarrow>
          valid_datetime (birthday_value b)
          \<and> check_date_fields (year today) (month (birthday_value b)) (day (birthday_value b))
          \<and> (dt_lt ((birthday_value b)\<lparr>year := year today\<rparr>) today \<longrightarrow>
               check_date_fields (year today + 1) (month (birthday_value b))
                 (day (birthday_value b))))"

section \<open>Phone validation\<close>

lemma decimal_isdigit: "decimal_digit c \<Longrightarrow> isdigit_char c"
  by (simp add: decimal_digit_def isdigit_char_def)

lemma ten_decimal_valid: "ten_decimal_digits s \<Longrightarrow> validate_phone s"
  by (auto simp: ten_decimal_digits_def validate_phone_def isdigit_def list_all_iff
      decimal_isdigit)

text \<open>
  C4, as stated, fails: ten superscript twos (U+00B2) pass \<open>str.isdigit\<close> and have length
  10, so the constructor accepts them, although none of them is a decimal digit.
\<close>

theorem Phone_init_superscript_counterexample:
  "Phone_init (replicate 10 (CHR 0xB2)) = Inr (Phone (replicate 10 (CHR 0xB2)))
   \<and> \<not> ten_decimal_digits (replicate 10 (CHR 0xB2))"
  by (simp add: Phone_init_def validate_phone_def isdigit_def isdigit_char_def
      ten_decimal_digits_def decimal_digit_def list_all_iff set_replicate_conv_if)

text \<open>
  C4, amended: constructing a Phone from \<open>s\<close> fails with \<open>ValueError\<close> if and only if
  \<open>s\<close> is not exactly 10 characters that all satisfy \<open>str.isdigit\<close>; every string of
  exactly 10 decimal digits is accepted, and an accepted string is stored unchanged.
\<close>

theorem Phone_init_iff:
  "(Phone_init s = Inl ValueError \<longleftrightarrow> \<not> (length s = 10 \<and> list_all isdigit_char s))
   \<and> (ten_decimal_digits s \<longrightarrow> Phone_init s = Inr (Phone s))
   \<and> (\<forall>p. Phone_init s = Inr p \<longrightarrow> phone_value p = s)"
  using ten_decimal_valid[of s]
  by (auto simp: Phone_init_def validate_phone_def isdigit_def)

theorem Phone_init_iff_witness:
  "ten_decimal_digits ''1234567890'' \<and> Phone_init ''1234567890'' = Inr (Phone ''1234567890'')"
  using Phone_init_iff [of "''1234567890''"]
  by (simp add: ten_decimal_digits_def decimal_digit_def)

section \<open>Phones of a record\<close>

lemma Phone_init_valid: "Phone_init s = Inr p \<Longrightarrow> validate_phone (phone_value p)"
  by (auto simp: Phone_init_def split: if_splits)

lemma add_phone_valid: "phones_valid r \<Longrightarrow> phones_valid (snd (add_phone r phone))"
  by (auto simp: add_phone_def phones_valid_def dest: Phone_init_valid split: sum.splits)

lemma remove1_valid: "phones_valid r \<Longrightarrow> phones_valid (r\<lparr>phones := remove1 p (phones r)\<rparr>)"
  by (auto simp: phones_valid_def list_all_iff dest: notin_set_remove1)

lemma remove_phone_valid: "phones_valid r \<Longrightarrow> phones_valid (remove_phone r phone)"
  by (auto simp: remove_phone_def remove1_valid split: option.splits)

lemma edit_phone_valid: "phones_valid r \<Longrightarrow> phones_valid (snd (edit_phone r old new))"
  by (auto simp: edit_phone_def remove1_valid add_phone_valid split: option.splits)

lemma add_birthday_valid: "phones_valid r \<Longrightarrow> phones_valid (snd (add_birthday r v))"
  by (auto simp: add_birthday_def phones_valid_def split: sum.splits)

lemma record_step_valid: "record_step r r' \<Longrightarrow> phones_valid r \<Longrightarrow> phones_valid r'"
  by (induction rule: record_step.induct)
     (simp_all add: add_phone_valid remove_phone_valid edit_phone_valid add_birthday_valid)

lemma Record_init_valid: "Record_init n = Inr r \<Longrightarrow> phones_valid r"
  by (auto simp: Record_init_def phones_valid_def split: sum.splits)

lemma reach_john: "reachable_record \<lparr>name = Name ''John'', phones = [], birthday = None\<rparr>"
  by (rule reach_init[of "''John''"]) (simp add: Record_init_def Name_init_def)

lemma add_phone_john:
  "validate_phone s \<Longrightarrow>
   snd (add_phone \<lparr>name = Name ''John'', phones = ps, birthday = None\<rparr> s)
     = \<lparr>name = Name ''John'', phones = ps @ [Phone s], birthday = None\<rparr>"
  by (simp add: add_phone_def Phone_init_def)

lemma valid_1234567890: "validate_phone ''1234567890''"
  by (simp add: validate_phone_def isdigit_def isdigit_char_def)

lemma reach_john1:
  "reachable_record \<lparr>name = Name ''John'', phones = [Phone ''1234567890''], birthday = None\<rparr>"
  using reach_step[OF reach_john step_add_phone[of _ "''1234567890''"]]
    add_phone_john[OF valid_1234567890, of "[]"]
  by simp

lemma reach_john2:
  "reachable_record
     \<lparr>name = Name ''John'', phones = [Phone ''1234567890'', Phone ''1234567890''],
        birthday = None\<rparr>"
  using reach_step[OF reach_john1 step_add_phone[of _ "''1234567890''"]]
    add_phone_john[OF valid_1234567890, of "[Phone ''1234567890'']"]
  by simp

text \<open>
  C10, as stated, fails: \<open>add_phone\<close> stores ten superscript twos, which are digits for
  \<open>str.isdigit\<close> and are not decimal digits.
\<close>

theorem reachable_superscript_counterexample:
  "reachable_record
     \<lparr>name = Name ''John'', phones = [Phone (replicate 10 (CHR 0xB2))], birthday = None\<rparr>
   \<and> \<not> ten_decimal_digits (replicate 10 (CHR 0xB2))"
proof -
  have v: "validate_phone (replicate 10 (CHR 0xB2))"
    by (simp add: validate_phone_def isdigit_def isdigit_char_def list_all_iff
        set_replicate_conv_if)
  have "reachable_record
     \<lparr>name = Name ''John'', phones = [Phone (replicate 10 (CHR 0xB2))], birthday = None\<rparr>"
    using reach_step[OF reach_john step_add_phone[of _ "replicate 10 (CHR 0xB2)"]]
      add_phone_john[OF v, of "[]"]
    by simp
  then show ?thesis
    by (simp add: ten_decimal_digits_def decimal_digit_def list_all_iff set_replicate_conv_if)
qed

text \<open>
  C10, amended: in every record reachable from its construction by calls of
  \<open>add_phone\<close>, \<open>remove_phone\<close>, \<open>edit_phone\<close> and \<open>add_birthday\<close>, failing calls
  included, every phone of the list has a value of exactly 10 characters that all satisfy
  \<open>str.isdigit\<close>: no string that fails the validation enters the list.
\<close>

theorem reachable_phones_valid:
  "reachable_record r \<Longrightarrow>
     \<forall>p \<in> set (phones r). length (phone_value p) = 10 \<and> list_all isdigit_char (phone_value p)"
proof -
  assume "reachable_record r"
  then have "phones_valid r"
    by (induction rule: reachable_record.induct) (auto simp: Record_init_valid record_step_valid)
  then show ?thesis
    by (auto simp: phones_valid_def list_all_iff validate_phone_def isdigit_def)
qed

theorem reachable_phones_valid_witness:
  "reachable_record \<lparr>name = Name ''John'', phones = [Phone ''1234567890''], birthday = None\<rparr>
   \<and> length ''1234567890'' = 10 \<and> list_all isdigit_char ''1234567890''"
  using reachable_phones_valid[OF reach_john1] reach_john1 by simp

text \<open>
  C2: \<open>edit_phone\<close> removes the old phone before it validates the new one. With an invalid
  new phone the call raises \<open>ValueError\<close> and leaves the record without the old phone.
\<close>

theorem edit_phone_invalid_new_loses_old:
  "edit_phone \<lparr>name = Name ''John'', phones = [Phone ''1234567890''], birthday = None\<rparr>
     ''1234567890'' ''abc''
   = (Inl ValueError, \<lparr>name = Name ''John'', phones = [], birthday = None\<rparr>)"
  by (simp add: edit_phone_def find_phone_def add_phone_def Phone_init_def validate_phone_def)

text \<open>The sibling operations validate before they change the record.\<close>

lemma add_phone_failure_unchanged:
  "fst (add_phone r phone) = Inl e \<Longrightarrow> snd (add_phone r phone) = r"
  by (auto simp: add_phone_def split: sum.splits)

lemma add_birthday_failure_unchanged:
  "fst (add_birthday r v) = Inl e \<Longrightarrow> snd (add_birthday r v) = r"
  by (auto simp: add_birthday_def split: sum.splits)

section \<open>Editing a phone\<close>

lemma find_in_None_iff: "find_in ps x = None \<longleftrightarrow> x \<notin> phone_value ` set ps"
  by (induction ps) auto

lemma find_in_Some: "find_in ps x = Some p \<Longrightarrow> p \<in> set ps \<and> p = Phone x"
  by (induction ps) (auto split: if_splits)

lemma find_in_append:
  "find_in (ps @ [q]) x =
     (case find_in ps x of Some p \<Rightarrow> Some p
      | None \<Rightarrow> if phone_value q = x then Some q else None)"
  by (induction ps) auto

lemma values_remove1:
  "map phone_value (remove1 (Phone x) ps) = remove1 x (map phone_value ps)"
proof (induction ps)
  case Nil
  then show ?case by simp
next
  case (Cons p ps)
  then show ?case by (cases p) auto
qed

lemma count_remove1: "x \<in> set vs \<Longrightarrow> count_list (remove1 x vs) x = count_list vs x - 1"
  by (induction vs) auto

lemma notin_remove1_iff: "x \<in> set vs \<Longrightarrow> x \<notin> set (remove1 x vs) \<longleftrightarrow> count_list vs x = 1"
proof -
  assume a: "x \<in> set vs"
  then have "count_list vs x > 0" using count_list_0_iff[of vs x] by auto
  then show ?thesis
    using count_remove1[OF a] count_list_0_iff[of "remove1 x vs" x] by auto
qed

text \<open>
  C3, as stated, fails: a record may hold the same number twice (\<open>add_phone\<close> does not
  reject duplicates), \<open>edit_phone\<close> replaces the first occurrence only, and the old number
  is still found afterwards.
\<close>

theorem edit_phone_duplicate_counterexample:
  "reachable_record
     \<lparr>name = Name ''John'', phones = [Phone ''1234567890'', Phone ''1234567890''],
        birthday = None\<rparr>
   \<and> ten_decimal_digits ''1112223333''
   \<and> edit_phone
        \<lparr>name = Name ''John'', phones = [Phone ''1234567890'', Phone ''1234567890''],
           birthday = None\<rparr>
        ''1234567890'' ''1112223333''
      = (Inr (),
         \<lparr>name = Name ''John'', phones = [Phone ''1234567890'', Phone ''1112223333''],
            birthday = None\<rparr>)
   \<and> find_phone
        \<lparr>name = Name ''John'', phones = [Phone ''1234567890'', Phone ''1112223333''],
           birthday = None\<rparr>
        ''1234567890'' = Some (Phone ''1234567890'')"
  using reach_john2
  by (simp add: edit_phone_def find_phone_def add_phone_def Phone_init_def validate_phone_def
      isdigit_def isdigit_char_def ten_decimal_digits_def decimal_digit_def)

text \<open>
  C3, amended: when a phone with value \<open>old\<close> is in the list and \<open>new\<close> passes the
  validation, \<open>edit_phone old new\<close> succeeds, afterwards \<open>find_phone new\<close> returns a phone
  and the list has the length it had; \<open>find_phone old\<close> returns the not-found indicator
  exactly when \<open>old\<close> differs from \<open>new\<close> and occurred once in the list. When no phone
  with value \<open>old\<close> is present, the call leaves the record unchanged and raises nothing.
\<close>

theorem edit_phone_effect:
  "(find_phone r old \<noteq> None \<and> validate_phone new \<longrightarrow>
      fst (edit_phone r old new) = Inr ()
      \<and> find_phone (snd (edit_phone r old new)) new \<noteq> None
      \<and> length (phones (snd (edit_phone r old new))) = length (phones r)
      \<and> (find_phone (snd (edit_phone r old new)) old = None
           \<longleftrightarrow> old \<noteq> new \<and> count_list (map phone_value (phones r)) old = 1))
   \<and> (find_phone r old = None \<longrightarrow> edit_phone r old new = (Inr (), r))"
proof (intro conjI impI)
  assume "find_phone r old = None"
  then show "edit_phone r old new = (Inr (), r)" by (simp add: edit_phone_def)
next
  assume a: "find_phone r old \<noteq> None \<and> validate_phone new"
  then obtain p where p: "find_in (phones r) old = Some p" by (auto simp: find_phone_def)
  then have mem: "p \<in> set (phones r)" and peq: "p = Phone old" using find_in_Some by auto
  have e: "edit_phone r old new
           = (Inr (), r\<lparr>phones := remove1 (Phone old) (phones r) @ [Phone new]\<rparr>)"
    using a p peq by (simp add: edit_phone_def find_phone_def add_phone_def Phone_init_def)
  show "fst (edit_phone r old new) = Inr ()" by (simp add: e)
  show "find_phone (snd (edit_phone r old new)) new \<noteq> None"
    by (simp add: e find_phone_def find_in_append split: option.splits)
  show "length (phones (snd (edit_phone r old new))) = length (phones r)"
    using mem peq length_pos_if_in_set[OF mem] by (simp add: e length_remove1)
  have in_vs: "old \<in> set (map phone_value (phones r))" using mem peq by force
  show "find_phone (snd (edit_phone r old new)) old = None
        \<longleftrightarrow> old \<noteq> new \<and> count_list (map phone_value (phones r)) old = 1"
    using notin_remove1_iff[OF in_vs] values_remove1[of old "phones r"]
    by (auto simp: e find_phone_def find_in_None_iff image_Un simp flip: set_map)
qed

theorem edit_phone_effect_witness:
  "find_phone \<lparr>name = Name ''John'', phones = [Phone ''1234567890''], birthday = None\<rparr>
     ''1234567890'' \<noteq> None
   \<and> validate_phone ''1112223333''
   \<and> find_phone
       (snd (edit_phone
          \<lparr>name = Name ''John'', phones = [Phone ''1234567890''], birthday = None\<rparr>
          ''1234567890'' ''1112223333'')) ''1234567890'' = None
   \<and> find_phone \<lparr>name = Name ''John'', phones = [Phone ''1234567890''], birthday = None\<rparr>
       ''5555555555'' = None
   \<and> edit_phone \<lparr>name = Name ''John'', phones = [Phone ''1234567890''], birthday = None\<rparr>
       ''5555555555'' ''1112223333''
       = (Inr (), \<lparr>name = Name ''John'', phones = [Phone ''1234567890''], birthday = None\<rparr>)"
proof -
  let ?r = "\<lparr>name = Name ''John'', phones = [Phone ''1234567890''], birthday = None\<rparr>"
  have h1: "find_phone ?r ''1234567890'' \<noteq> None" by (simp add: find_phone_def)
  have h2: "validate_phone ''1112223333''"
    by (simp add: validate_phone_def isdigit_def isdigit_char_def)
  have h3: "find_phone ?r ''5555555555'' = None" by (simp add: find_phone_def)
  have c: "count_list (map phone_value (phones ?r)) ''1234567890'' = 1" by simp
  show ?thesis
    using edit_phone_effect[of ?r "''1234567890''" "''1112223333''"]
      edit_phone_effect[of ?r "''5555555555''" "''1112223333''"] h1 h2 h3 c
    by simp
qed

section \<open>Keys of the address book\<close>

lemma record_step_name: "record_step r r' \<Longrightarrow> name r' = name r"
  by (induction rule: record_step.induct)
     (auto simp: add_phone_def remove_phone_def edit_phone_def add_birthday_def
       split: sum.splits option.splits)

lemma reachable_record_name: "reachable_record r \<Longrightarrow> name_value (name r) \<noteq> []"
  by (induction rule: reachable_record.induct)
     (auto simp: Record_init_def Name_init_def record_step_name split: if_splits sum.splits)

lemma setitem_inv:
  "book_inv b \<Longrightarrow> k \<noteq> [] \<Longrightarrow> name_value (name r) = k \<Longrightarrow> book_inv (setitem b k r)"
  by (induction b) (auto simp: book_inv_def)

lemma delitem_inv: "book_inv b \<Longrightarrow> book_inv (delitem b k)"
  by (induction b) (auto simp: book_inv_def)

lemma add_record_inv: "book_inv b \<Longrightarrow> reachable_record r \<Longrightarrow> book_inv (add_record b r)"
  by (simp add: add_record_def setitem_inv reachable_record_name)

lemma delete_inv: "book_inv b \<Longrightarrow> book_inv (delete b n)"
  by (simp add: delete_def delitem_inv)

lemma find_record_inv:
  "book_inv b \<Longrightarrow> find_record b n = Some r \<Longrightarrow> n \<noteq> [] \<and> name_value (name r) = n"
  by (auto simp: book_inv_def find_record_def list_all_iff dest!: map_of_SomeD)

lemma reachable_book_inv: "reachable_book b \<Longrightarrow> book_inv b"
proof (induction rule: reachable_book.induct)
  case book_empty
  then show ?case by (simp add: book_inv_def)
next
  case (book_add b r)
  then show ?case by (simp add: add_record_inv)
next
  case (book_delete b n)
  then show ?case by (simp add: delete_inv)
next
  case (book_mutate b n r r')
  then show ?case
    using find_record_inv[of b n r] record_step_name[of r r'] by (simp add: setitem_inv)
qed



text \<open>
  C9: in every book reachable from the empty one by \<open>add_record\<close> and \<open>delete\<close> (and by
  mutating a stored record in place), every key is a non-empty string equal to the name of
  the record it maps to; \<open>add_record\<close> of a constructed record and \<open>delete\<close> preserve the
  invariant.
\<close>

theorem reachable_book_keys:
  "(reachable_book b \<longrightarrow>
      (\<forall>(k, r) \<in> set b. k \<noteq> [] \<and> name_value (name r) = k)
      \<and> (\<forall>n r. find_record b n = Some r \<longrightarrow> n \<noteq> [] \<and> name_value (name r) = n))
   \<and> (book_inv b \<and> reachable_record r' \<longrightarrow> book_inv (add_record b r'))
   \<and> (book_inv b \<longrightarrow> book_inv (delete b n'))"
proof (intro conjI impI)
  assume "reachable_book b"
  then have i: "book_inv b" by (rule reachable_book_inv)
  then show "\<forall>(k, r) \<in> set b. k \<noteq> [] \<and> name_value (name r) = k"
    by (simp add: book_inv_def list_all_iff)
  show "\<forall>n r. find_record b n = Some r \<longrightarrow> n \<noteq> [] \<and> name_value (name r) = n"
    using find_record_inv[OF i] by blast
next
  assume "book_inv b \<and> reachable_record r'"
  then show "book_inv (add_record b r')" by (simp add: add_record_inv)
next
  assume "book_inv b"
  then show "book_inv (delete b n')" by (rule delete_inv)
qed


theorem reachable_book_keys_witness:
  "reachable_book [(''John'', \<lparr>name = Name ''John'', phones = [], birthday = None\<rparr>)]
   \<and> find_record [(''John'', \<lparr>name = Name ''John'', phones = [], birthday = None\<rparr>)] ''John''
      = Some \<lparr>name = Name ''John'', phones = [], birthday = None\<rparr>
   \<and> book_inv [] \<and> reachable_record \<lparr>name = Name ''John'', phones = [], birthday = None\<rparr>
   \<and> book_inv (add_record [] \<lparr>name = Name ''John'', phones = [], birthday = None\<rparr>)
   \<and> book_inv (delete [] ''John'')
   \<and> name_value (name \<lparr>name = Name ''John'', phones = [], birthday = None\<rparr>) = ''John''"
proof -
  let ?r = "\<lparr>name = Name ''John'', phones = [], birthday = None\<rparr>"
  have rb: "reachable_book [(''John'', ?r)]"
    using book_add[OF book_empty reach_john] by (simp add: add_record_def)
  have f: "find_record [(''John'', ?r)] ''John'' = Some ?r" by (simp add: find_record_def)
  have e: "book_inv []" by (simp add: book_inv_def)
  note t = reachable_book_keys[of "[]" ?r "''John''"]
  have a: "book_inv (add_record [] ?r)" using t e reach_john by blast
  have d: "book_inv (delete [] ''John'')" using t e by blast
  note t2 = reachable_book_keys[of "[(''John'', ?r)]" ?r "''John''"]
  have k: "name_value (name ?r) = ''John''" using t2 rb f by blast
  show ?thesis using rb f e reach_john a d k by blast
qed

section \<open>Days to the next birthday\<close>

text \<open>
  A birthday on 29.02.2000 is stored by \<open>add_birthday\<close>, and with the clock reading
  10.02.2024 at midnight \<open>days_to_birthday\<close> returns 19: the birthday is projected to
  29.02.2024, which exists.
\<close>

lemma days_to_birthday_leap_day:
  "add_birthday \<lparr>name = Name ''John'', phones = [], birthday = None\<rparr> ''29.02.2000''
   = (Inr (),
      \<lparr>name = Name ''John'', phones = [],
         birthday = Some (Birthday \<lparr>year = 2000, month = 2, day = 29, hour = 0, minute = 0,
                                     second = 0, microsecond = 0\<rparr>)\<rparr>)
   \<and> days_to_birthday
       \<lparr>name = Name ''John'', phones = [],
          birthday = Some (Birthday \<lparr>year = 2000, month = 2, day = 29, hour = 0, minute = 0,
                                      second = 0, microsecond = 0\<rparr>)\<rparr>
       \<lparr>year = 2024, month = 2, day = 10, hour = 0, minute = 0, second = 0, microsecond = 0\<rparr>
     = Inr (Some 19)"
  by code_simp

text \<open>
  C6: the clock that the source reads carries the time of day, and the stored birthday
  is at midnight. On 10.02.2024 at noon the difference to 29.02.2024 is 18 days and 12
  hours, and \<open>days_to_birthday\<close> returns 18, not 19; the same holds one microsecond after
  midnight and one microsecond before the next.
\<close>

theorem days_to_birthday_leap_day_noon:
  "days_to_birthday
     \<lparr>name = Name ''John'', phones = [],
        birthday = Some (Birthday \<lparr>year = 2000, month = 2, day = 29, hour = 0, minute = 0,
                                    second = 0, microsecond = 0\<rparr>)\<rparr>
     \<lparr>year = 2024, month = 2, day = 10, hour = 12, minute = 0, second = 0, microsecond = 0\<rparr>
   = Inr (Some 18)
   \<and> days_to_birthday
     \<lparr>name = Name ''John'', phones = [],
        birthday = Some (Birthday \<lparr>year = 2000, month = 2, day = 29, hour = 0, minute = 0,
                                    second = 0, microsecond = 0\<rparr>)\<rparr>
     \<lparr>year = 2024, month = 2, day = 10, hour = 0, minute = 0, second = 0, microsecond = 1\<rparr>
   = Inr (Some 18)
   \<and> days_to_birthday
     \<lparr>name = Name ''John'', phones = [],
        birthday = Some (Birthday \<lparr>year = 2000, month = 2, day = 29, hour = 0, minute = 0,
                                    second = 0, microsecond = 0\<rparr>)\<rparr>
     \<lparr>year = 2024, month = 2, day = 10, hour = 23, minute = 59, second = 59,
        microsecond = 999999\<rparr>
   = Inr (Some 18)
   \<and> fst (days_to_birthday_clock
     \<lparr>name = Name ''John'', phones = [],
        birthday = Some (Birthday \<lparr>year = 2000, month = 2, day = 29, hour = 0, minute = 0,
                                    second = 0, microsecond = 0\<rparr>)\<rparr>
     \<lparr>readings = (\<lambda>n. \<lparr>year = 2024, month = 2, day = 10, hour = 12, minute = 0, second = 0,
                         microsecond = 0\<rparr>), taken = 0\<rparr>)
   = Inr (Some 18)"
  by code_simp

section \<open>The clock\<close>

text \<open>
  C8, as stated, fails: both operations read the clock, and their results change with it,
  even within one calendar day. For a birthday on 01.01.1990, at 01.01.2024 00:00 the
  birthday is today (0 days, listed for a window of 0 days); at 12:00 of the same day the
  projection to 2024 is already past, the next birthday is 365 days away and the window
  is empty.
\<close>

theorem clock_dependence_counterexample:
  "days_to_birthday
     \<lparr>name = Name ''John'', phones = [],
        birthday = Some (Birthday \<lparr>year = 1990, month = 1, day = 1, hour = 0, minute = 0,
                                    second = 0, microsecond = 0\<rparr>)\<rparr>
     \<lparr>year = 2024, month = 1, day = 1, hour = 0, minute = 0, second = 0, microsecond = 0\<rparr>
   = Inr (Some 0)
   \<and> days_to_birthday
     \<lparr>name = Name ''John'', phones = [],
        birthday = Some (Birthday \<lparr>year = 1990, month = 1, day = 1, hour = 0, minute = 0,
                                    second = 0, microsecond = 0\<rparr>)\<rparr>
     \<lparr>year = 2024, month = 1, day = 1, hour = 12, minute = 0, second = 0, microsecond = 0\<rparr>
   = Inr (Some 365)
   \<and> get_upcoming_birthdays
     [(''John'', \<lparr>name = Name ''John'', phones = [],
        birthday = Some (Birthday \<lparr>year = 1990, month = 1, day = 1, hour = 0, minute = 0,
                                    second = 0, microsecond = 0\<rparr>)\<rparr>)] 0
     \<lparr>year = 2024, month = 1, day = 1, hour = 0, minute = 0, second = 0, microsecond = 0\<rparr>
   = Inr [\<lparr>name = Name ''John'', phones = [],
        birthday = Some (Birthday \<lparr>year = 1990, month = 1, day = 1, hour = 0, minute = 0,
                                    second = 0, microsecond = 0\<rparr>)\<rparr>]
   \<and> get_upcoming_birthdays
     [(''John'', \<lparr>name = Name ''John'', phones = [],
        birthday = Some (Birthday \<lparr>year = 1990, month = 1, day = 1, hour = 0, minute = 0,
                                    second = 0, microsecond = 0\<rparr>)\<rparr>)] 0
     \<lparr>year = 2024, month = 1, day = 1, hour = 12, minute = 0, second = 0, microsecond = 0\<rparr>
   = Inr []"
  by code_simp

text \<open>
  C8, amended: the operations read the current date and time themselves, each exactly
  once per call (\<open>days_to_birthday\<close> not at all for a record without birthday); their
  result is the function of the arguments, the state and that one reading given above, so
  two calls with the same arguments and state return the same result whenever the clock
  gives them the same reading, whatever it reads before or after it.
\<close>

theorem clock_read_once:
  "days_to_birthday_clock r w
     = (days_to_birthday r (readings w (taken w)),
        if birthday r = None then w else w\<lparr>taken := taken w + 1\<rparr>)
   \<and> get_upcoming_birthdays_clock book days w
     = (get_upcoming_birthdays book days (readings w (taken w)), w\<lparr>taken := taken w + 1\<rparr>)
   \<and> (readings w (taken w) = readings w' (taken w') \<longrightarrow>
        fst (days_to_birthday_clock r w) = fst (days_to_birthday_clock r w')
        \<and> fst (get_upcoming_birthdays_clock book days w)
          = fst (get_upcoming_birthdays_clock book days w'))"
proof -
  have d: "days_to_birthday_clock r v
     = (days_to_birthday r (readings v (taken v)),
        if birthday r = None then v else v\<lparr>taken := taken v + 1\<rparr>)" for v
    by (simp add: days_to_birthday_clock_def days_to_birthday_def datetime_today_def
        split: option.splits sum.splits)
  have g: "get_upcoming_birthdays_clock book days v
     = (get_upcoming_birthdays book days (readings v (taken v)), v\<lparr>taken := taken v + 1\<rparr>)"
    for v
    by (simp add: get_upcoming_birthdays_clock_def get_upcoming_birthdays_def
        datetime_today_def split: sum.splits)
  show ?thesis
    unfolding d g by simp
qed

theorem clock_read_once_witness:
  "readings
     \<lparr>readings = (\<lambda>n. if n = 0
                     then \<lparr>year = 2024, month = 1, day = 1, hour = 12, minute = 0,
                             second = 0, microsecond = 0\<rparr>
                     else \<lparr>year = 2024, month = 6, day = 1, hour = 0, minute = 0,
                             second = 0, microsecond = 0\<rparr>), taken = 0\<rparr> 0
   = readings
     \<lparr>readings = (\<lambda>n. \<lparr>year = 2024, month = 1, day = 1, hour = 12, minute = 0, second = 0,
                         microsecond = 0\<rparr>), taken = 5\<rparr> 5
   \<and> fst (days_to_birthday_clock
       \<lparr>name = Name ''John'', phones = [],
          birthday = Some (Birthday \<lparr>year = 1990, month = 1, day = 1, hour = 0, minute = 0,
                                      second = 0, microsecond = 0\<rparr>)\<rparr>
       \<lparr>readings = (\<lambda>n. if n = 0
                       then \<lparr>year = 2024, month = 1, day = 1, hour = 12, minute = 0,
                               second = 0, microsecond = 0\<rparr>
                       else \<lparr>year = 2024, month = 6, day = 1, hour = 0, minute = 0,
                               second = 0, microsecond = 0\<rparr>), taken = 0\<rparr>)
     = fst (days_to_birthday_clock
       \<lparr>name = Name ''John'', phones = [],
          birthday = Some (Birthday \<lparr>year = 1990, month = 1, day = 1, hour = 0, minute = 0,
                                      second = 0, microsecond = 0\<rparr>)\<rparr>
       \<lparr>readings = (\<lambda>n. \<lparr>year = 2024, month = 1, day = 1, hour = 12, minute = 0, second = 0,
                           microsecond = 0\<rparr>), taken = 5\<rparr>)
   \<and> fst (get_upcoming_birthdays_clock
       [(''John'', \<lparr>name = Name ''John'', phones = [],
          birthday = Some (Birthday \<lparr>year = 1990, month = 1, day = 1, hour = 0, minute = 0,
                                      second = 0, microsecond = 0\<rparr>)\<rparr>)] 7
       \<lparr>readings = (\<lambda>n. if n = 0
                       then \<lparr>year = 2024, month = 1, day = 1, hour = 12, minute = 0,
                               second = 0, microsecond = 0\<rparr>
                       else \<lparr>year = 2024, month = 6, day = 1, hour = 0, minute = 0,
                               second = 0, microsecond = 0\<rparr>), taken = 0\<rparr>)
     = fst (get_upcoming_birthdays_clock
       [(''John'', \<lparr>name = Name ''John'', phones = [],
          birthday = Some (Birthday \<lparr>year = 1990, month = 1, day = 1, hour = 0, minute = 0,
                                      second = 0, microsecond = 0\<rparr>)\<rparr>)] 7
       \<lparr>readings = (\<lambda>n. \<lparr>year = 2024, month = 1, day = 1, hour = 12, minute = 0, second = 0,
                           microsecond = 0\<rparr>), taken = 5\<rparr>)
   \<and> taken (snd (get_upcoming_birthdays_clock
       [(''John'', \<lparr>name = Name ''John'', phones = [],
          birthday = Some (Birthday \<lparr>year = 1990, month = 1, day = 1, hour = 0, minute = 0,
                                      second = 0, microsecond = 0\<rparr>)\<rparr>)] 7
       \<lparr>readings = (\<lambda>n. \<lparr>year = 2024, month = 1, day = 1, hour = 12, minute = 0, second = 0,
                           microsecond = 0\<rparr>), taken = 5\<rparr>)) = 6"
proof -
  let ?noon = "\<lparr>year = 2024, month = 1, day = 1, hour = 12, minute = 0, second = 0,
                 microsecond = 0\<rparr>"
  let ?june = "\<lparr>year = 2024, month = 6, day = 1, hour = 0, minute = 0, second = 0,
                 microsecond = 0\<rparr>"
  let ?w = "\<lparr>readings = (\<lambda>n. if n = 0 then ?noon else ?june), taken = 0\<rparr>"
  let ?w' = "\<lparr>readings = (\<lambda>n. ?noon), taken = 5\<rparr>"
  let ?john = "\<lparr>name = Name ''John'', phones = [],
          birthday = Some (Birthday \<lparr>year = 1990, month = 1, day = 1, hour = 0, minute = 0,
                                      second = 0, microsecond = 0\<rparr>)\<rparr>"
  have h: "readings ?w (taken ?w) = readings ?w' (taken ?w')" by simp
  note t = clock_read_once[of ?john ?w "[(''John'', ?john)]" 7 ?w']
  note t' = clock_read_once[of ?john ?w' "[(''John'', ?john)]" 7 ?w]
  have e: "fst (days_to_birthday_clock ?john ?w) = fst (days_to_birthday_clock ?john ?w')"
    "fst (get_upcoming_birthdays_clock [(''John'', ?john)] 7 ?w)
     = fst (get_upcoming_birthdays_clock [(''John'', ?john)] 7 ?w')"
    using t h by blast+
  have k: "taken (snd (get_upcoming_birthdays_clock [(''John'', ?john)] 7 ?w')) = 6"
    using t' by simp
  show ?thesis using e k by simp
qed

section \<open>Rendering and parsing a date\<close>

lemma of_char_digit: "0 \<le> n \<Longrightarrow> n < 10 \<Longrightarrow> (of_char (digit_char n) :: nat) = 48 + nat n"
  by (simp add: digit_char_def)

lemma digit_char_eq_iff:
  "0 \<le> n \<Longrightarrow> n < 10 \<Longrightarrow> digit_char n = c \<longleftrightarrow> 48 + nat n = (of_char c :: nat)"
  using of_char_digit[of n] of_char_eq_iff[of "digit_char n" c, where ?'a = nat] by simp

lemma in_range_digit:
  "0 \<le> n \<Longrightarrow> n < 10 \<Longrightarrow>
   in_range lo hi (digit_char n) \<longleftrightarrow> (of_char lo :: nat) \<le> 48 + nat n \<and> 48 + nat n \<le> (of_char hi :: nat)"
  by (simp add: in_range_def of_char_digit)

lemma decimal_digit_char: "0 \<le> n \<Longrightarrow> n < 10 \<Longrightarrow> decimal_digit (digit_char n)"
  by (simp add: decimal_digit_def of_char_digit)

lemma digit_val_char: "0 \<le> n \<Longrightarrow> n < 10 \<Longrightarrow> digit_val (digit_char n) = n"
  by (simp add: digit_val_def of_char_digit)

lemma split_day:
  fixes d :: int
  assumes "1 \<le> d" "d \<le> 31"
  shows "(d div 10 mod 10 = 3 \<and> d mod 10 \<le> 1) \<or> (d div 10 mod 10 = 1 \<or> d div 10 mod 10 = 2) \<or> (d div 10 mod 10 = 0 \<and> 1 \<le> d mod 10)"
proof -
  have "d \<in> {1..31}" using assms by simp
  also have "{1..31::int} = set [1..31]" by simp
  also have "\<dots> = {1,2,3,4,5,6,7,8,9,10,11,12,13,14,15,16,17,18,19,20,21,22,23,24,25,26,27,28,29,30,31}"
    by code_simp
  finally show ?thesis by auto
qed


lemma group_d_pad2:
  assumes "1 \<le> d" "d \<le> 31"
  shows "\<exists>more. group_d (pad2 d @ r) = (d, r) # more"
proof -
  let ?a = "d div 10 mod 10" and ?b = "d mod 10"
  have a: "0 \<le> ?a" "?a < 10" and b: "0 \<le> ?b" "?b < 10" by simp_all
  have "num [digit_char ?a, digit_char ?b] = 10 * digit_val (digit_char ?a) + digit_val (digit_char ?b)"
    by (simp add: num_def)
  also have "\<dots> = 10 * ?a + ?b"
    unfolding digit_val_char[OF a] digit_val_char[OF b] ..
  also have "\<dots> = d" using assms by simp
  finally have n: "num [digit_char ?a, digit_char ?b] = d" .
  from split_day[OF assms]
  consider "?a = 3" "?b \<le> 1" | "?a = 1 \<or> ?a = 2" | "?a = 0" "1 \<le> ?b" by blast
  then show ?thesis
  proof cases
    case 1
    have "digit_char ?a = CHR ''3''" unfolding digit_char_eq_iff[OF a] using 1 by simp
    moreover have "in_range (CHR ''0'') (CHR ''1'') (digit_char ?b)"
      unfolding in_range_digit[OF b] using 1 b by simp
    ultimately show ?thesis
      using n by (simp add: pad2_def)
  next
    case 2
    have "in_range (CHR ''1'') (CHR ''2'') (digit_char ?a)"
      unfolding in_range_digit[OF a] using 2 by auto
    moreover have "digit_char ?a \<noteq> CHR ''3''"
      unfolding digit_char_eq_iff[OF a] using 2 by auto
    ultimately show ?thesis
      using n decimal_digit_char[OF b] by (simp add: pad2_def)
  next
    case 3
    have "digit_char ?a = CHR ''0''" unfolding digit_char_eq_iff[OF a] using 3 by simp
    moreover have "in_range (CHR ''1'') (CHR ''9'') (digit_char ?b)"
      unfolding in_range_digit[OF b] using 3 b by (simp add: le_nat_iff nat_le_iff)
    moreover have "\<not> in_range (CHR ''1'') (CHR ''2'') (CHR ''0'')" by (simp add: in_range_def)
    ultimately show ?thesis
      using n by (simp add: pad2_def)
  qed
qed


lemma split_month:
  fixes m :: int
  assumes "1 \<le> m" "m \<le> 12"
  shows "(m div 10 mod 10 = 1 \<and> m mod 10 \<le> 2) \<or> (m div 10 mod 10 = 0 \<and> 1 \<le> m mod 10)"
proof -
  have "m \<in> {1..12}" using assms by simp
  also have "{1..12::int} = set [1..12]" by simp
  also have "\<dots> = {1,2,3,4,5,6,7,8,9,10,11,12}"
    by code_simp
  finally show ?thesis by auto
qed

lemma group_m_pad2:
  assumes "1 \<le> m" "m \<le> 12"
  shows "\<exists>more. group_m (pad2 m @ r) = (m, r) # more"
proof -
  let ?a = "m div 10 mod 10" and ?b = "m mod 10"
  have a: "0 \<le> ?a" "?a < 10" and b: "0 \<le> ?b" "?b < 10" by simp_all
  have "num [digit_char ?a, digit_char ?b] = 10 * digit_val (digit_char ?a) + digit_val (digit_char ?b)"
    by (simp add: num_def)
  also have "\<dots> = 10 * ?a + ?b"
    unfolding digit_val_char[OF a] digit_val_char[OF b] ..
  also have "\<dots> = m" using assms by simp
  finally have n: "num [digit_char ?a, digit_char ?b] = m" .
  from split_month[OF assms]
  consider "?a = 1" "?b \<le> 2" | "?a = 0" "1 \<le> ?b" by blast
  then show ?thesis
  proof cases
    case 1
    have "digit_char ?a = CHR ''1''" unfolding digit_char_eq_iff[OF a] using 1 by simp
    moreover have "in_range (CHR ''0'') (CHR ''2'') (digit_char ?b)"
      unfolding in_range_digit[OF b] using 1 b by (simp add: le_nat_iff nat_le_iff)
    ultimately show ?thesis
      using n by (simp add: pad2_def)
  next
    case 2
    have "digit_char ?a = CHR ''0''" unfolding digit_char_eq_iff[OF a] using 2 by simp
    moreover have "in_range (CHR ''1'') (CHR ''9'') (digit_char ?b)"
      unfolding in_range_digit[OF b] using 2 b by (simp add: le_nat_iff nat_le_iff)
    ultimately show ?thesis
      using n by (simp add: pad2_def)
  qed
qed

lemma four_digits:
  fixes y :: int
  assumes "0 \<le> y" "y \<le> 9999"
  shows "10 * (10 * (10 * (y div 1000 mod 10) + y div 100 mod 10) + y div 10 mod 10) + y mod 10 = y"
proof -
  define q1 where "q1 = y div 10"
  define q2 where "q2 = q1 div 10"
  define q3 where "q3 = q2 div 10"
  have e2: "y div 100 = q2" unfolding q2_def q1_def using zdiv_zmult2_eq[of 10 y 10] by simp
  have e3: "y div 1000 = q3" unfolding q3_def q2_def q1_def
    using zdiv_zmult2_eq[of 10 y 10] zdiv_zmult2_eq[of 10 y 100] by simp
  have "q3 < 10" "0 \<le> q3" using assms e3 by auto
  then have m3: "q3 mod 10 = q3" by simp
  have "10 * (10 * (10 * (q3 mod 10) + q2 mod 10) + q1 mod 10) + y mod 10 = y"
    unfolding m3 unfolding q3_def q2_def q1_def by simp
  then show ?thesis unfolding e2 e3 q1_def[symmetric] .
qed

lemma num4:
  "num [a, b, c, d] = 10 * (10 * (10 * digit_val a + digit_val b) + digit_val c) + digit_val d"
  by (simp add: num_def)

lemma group_Y_digits:
  "decimal_digit a \<Longrightarrow> decimal_digit b \<Longrightarrow> decimal_digit c \<Longrightarrow> decimal_digit d \<Longrightarrow>
   group_Y (a # b # c # d # r) = [(num [a, b, c, d], r)]"
  by simp

lemma group_Y_pad4:
  assumes "0 \<le> y" "y \<le> 9999"
  shows "group_Y (pad4 y @ r) = [(y, r)]"
proof -
  let ?a = "y div 1000 mod 10" and ?b = "y div 100 mod 10" and ?c = "y div 10 mod 10"
    and ?d = "y mod 10"
  have a: "0 \<le> ?a" "?a < 10" and b: "0 \<le> ?b" "?b < 10"
    and c: "0 \<le> ?c" "?c < 10" and d: "0 \<le> ?d" "?d < 10" by simp_all
  have "num [digit_char ?a, digit_char ?b, digit_char ?c, digit_char ?d]
        = 10 * (10 * (10 * ?a + ?b) + ?c) + ?d"
    unfolding num4 digit_val_char[OF a] digit_val_char[OF b] digit_val_char[OF c]
      digit_val_char[OF d] ..
  also have "\<dots> = y" using four_digits[OF assms] .
  finally have n: "num [digit_char ?a, digit_char ?b, digit_char ?c, digit_char ?d] = y" .
  have "group_Y (pad4 y @ r)
        = [(num [digit_char ?a, digit_char ?b, digit_char ?c, digit_char ?d], r)]"
    unfolding pad4_def append_Cons append_Nil
    by (rule group_Y_digits[OF decimal_digit_char[OF a] decimal_digit_char[OF b]
          decimal_digit_char[OF c] decimal_digit_char[OF d]])
  then show ?thesis unfolding n .
qed


lemma match_format_rendered:
  assumes "1 \<le> d" "d \<le> 31" "1 \<le> m" "m \<le> 12" "0 \<le> y" "y \<le> 9999"
  shows "\<exists>more. match_format (pad2 d @ ''.'' @ pad2 m @ ''.'' @ pad4 y) = (d, m, y, []) # more"
proof -
  obtain more1 where g1: "group_d (pad2 d @ CHR ''.'' # pad2 m @ CHR ''.'' # pad4 y)
      = (d, CHR ''.'' # pad2 m @ CHR ''.'' # pad4 y) # more1"
    using group_d_pad2[OF assms(1,2)] by blast
  obtain more2 where g2: "group_m (pad2 m @ CHR ''.'' # pad4 y) = (m, CHR ''.'' # pad4 y) # more2"
    using group_m_pad2[OF assms(3,4)] by blast
  have g3: "group_Y (pad4 y) = [(y, [])]" using group_Y_pad4[OF assms(5,6), of "[]"] by simp
  show ?thesis
    by (simp add: match_format_def g1 g2 g3)
qed

lemma month_cases:
  fixes m :: int
  assumes "1 \<le> m" "m \<le> 12"
  shows "m \<in> {1, 2, 3, 4, 5, 6, 7, 8, 9, 10, 11, 12}"
proof -
  have "m \<in> {1..12}" using assms by simp
  also have "{1..12::int} = set [1..12]" by simp
  also have "\<dots> = {1,2,3,4,5,6,7,8,9,10,11,12}"
    by code_simp
  finally show ?thesis .
qed

lemma days_in_month_bounds:
  assumes "1 \<le> m" "m \<le> 12"
  shows "28 \<le> days_in_month y m \<and> days_in_month y m \<le> 31"
  using month_cases[OF assms] by (auto simp: days_in_month_def DAYS_IN_MONTH_def)

lemma decimal_pad4:
  assumes "1000 \<le> y" "y \<le> 9999"
  shows "decimal y = pad4 y"
proof -
  have d3: "y div 1000 < 10" "\<not> y div 100 < 10" "\<not> y div 10 < 10" "\<not> y < 10"
    using assms by simp_all
  have e: "y div 10 div 10 = y div 100" "y div 100 div 10 = y div 1000"
    using zdiv_zmult2_eq[of 10 y 10] zdiv_zmult2_eq[of 10 y 100] by simp_all
  have m: "y div 1000 mod 10 = y div 1000" using d3(1) assms by simp
  have "decimal y = decimal (y div 10) @ [digit_char (y mod 10)]"
    using d3(4) by (subst decimal.simps) simp
  also have "decimal (y div 10) = decimal (y div 100) @ [digit_char (y div 10 mod 10)]"
    using d3(3) by (subst decimal.simps) (simp add: e)
  also have "decimal (y div 100) = decimal (y div 1000) @ [digit_char (y div 100 mod 10)]"
    using d3(2) by (subst decimal.simps) (simp add: e)
  also have "decimal (y div 1000) = [digit_char (y div 1000 mod 10)]"
    using d3(1) by (subst decimal.simps) (simp add: m)
  finally show ?thesis by (simp add: pad4_def)
qed

text \<open>
  C7, as stated, fails: the first of January of the year 999 is a date of the calendar,
  it is rendered as \<open>01.01.999\<close>, and the constructor of Birthday rejects that text,
  because the year of the pattern needs four digits.
\<close>

theorem strptime_strftime_year_999_counterexample:
  "check_date_fields 999 1 1
   \<and> strftime \<lparr>year = 999, month = 1, day = 1, hour = 0, minute = 0, second = 0,
                  microsecond = 0\<rparr> = ''01.01.999''
   \<and> Birthday_init (strftime \<lparr>year = 999, month = 1, day = 1, hour = 0, minute = 0,
                                 second = 0, microsecond = 0\<rparr>) = Inl ValueError"
  by code_simp

text \<open>
  C7, amended: for every date of the calendar from the year 1000 on (to 9999, a month, a
  day that the month has in that year), rendering it with \<open>strftime("%d.%m.%Y")\<close> and
  constructing a Birthday from the text succeeds, and the stored value is that date, at
  midnight.
\<close>

theorem strptime_strftime:
  assumes "check_date_fields (year t) (month t) (day t)" and "1000 \<le> year t"
    and "hour t = 0" "minute t = 0" "second t = 0" "microsecond t = 0"
  shows "Birthday_init (strftime t) = Inr (Birthday t)"
proof -
  have m: "1 \<le> month t" "month t \<le> 12" and y: "0 \<le> year t" "year t \<le> 9999"
    and d: "1 \<le> day t"
    using assms(1) by (simp_all add: check_date_fields_def MINYEAR_def MAXYEAR_def)
  have d': "day t \<le> 31"
    using assms(1) days_in_month_bounds[OF m, of "year t"] by (simp add: check_date_fields_def)
  have s: "strftime t = pad2 (day t) @ ''.'' @ pad2 (month t) @ ''.'' @ pad4 (year t)"
    unfolding strftime_def decimal_pad4[OF assms(2) y(2)] ..
  obtain more where mf: "match_format (strftime t) = (day t, month t, year t, []) # more"
    using match_format_rendered[OF d d' m y] unfolding s by blast
  have "strptime (strftime t) = datetime_new (year t) (month t) (day t) 0 0 0 0"
    by (simp add: strptime_def mf)
  also have "\<dots> = Inr t"
    using assms by (simp add: datetime_new_def check_time_fields_def)
  finally show ?thesis by (simp add: Birthday_init_def)
qed

theorem strptime_strftime_witness:
  "check_date_fields 2000 2 29 \<and> (1000::int) \<le> 2000
   \<and> strftime \<lparr>year = 2000, month = 2, day = 29, hour = 0, minute = 0, second = 0,
                  microsecond = 0\<rparr> = ''29.02.2000''
   \<and> Birthday_init (strftime \<lparr>year = 2000, month = 2, day = 29, hour = 0, minute = 0,
                                 second = 0, microsecond = 0\<rparr>)
       = Inr (Birthday \<lparr>year = 2000, month = 2, day = 29, hour = 0, minute = 0, second = 0,
                          microsecond = 0\<rparr>)"
proof -
  let ?t = "\<lparr>year = 2000, month = 2, day = 29, hour = 0, minute = 0, second = 0,
              microsecond = 0\<rparr>"
  have c: "check_date_fields 2000 2 29" by code_simp
  have s: "strftime ?t = ''29.02.2000''" by code_simp
  have "Birthday_init (strftime ?t) = Inr (Birthday ?t)"
    using strptime_strftime[of ?t] c by simp
  then show ?thesis using c s by simp
qed

section \<open>The proleptic Gregorian ordinal\<close>

text \<open>
  \<open>ord2ymd\<close> returns a date of the calendar whose ordinal is its argument, and
  \<open>ymd2ord\<close> is strictly increasing on the dates of the calendar; so the two are
  inverse to each other.
\<close>

lemma dby_decomp:
  assumes "0 \<le> b" "b \<le> 3" "0 \<le> c" "c \<le> 24" "0 \<le> e" "e \<le> 3"
  shows "days_before_year (400 * a + 100 * b + 4 * c + e + 1)
         = 146097 * a + 36524 * b + 1461 * c + 365 * e"
proof -
  let ?Y = "400 * a + 100 * b + 4 * c + e"
  have d4: "?Y div 4 = 100 * a + 25 * b + c"
    by (rule int_div_pos_eq[where r = e]) (use assms in auto)
  have d100: "?Y div 100 = 4 * a + b"
    by (rule int_div_pos_eq[where r = "4 * c + e"]) (use assms in auto)
  have d400: "?Y div 400 = a"
    by (rule int_div_pos_eq[where r = "100 * b + 4 * c + e"]) (use assms in auto)
  show ?thesis
    unfolding days_before_year_def Let_def by (simp add: d4 d100 d400)
qed

lemma is_leap_decomp:
  assumes "0 \<le> b" "b \<le> 3" "0 \<le> c" "c \<le> 24" "0 \<le> e" "e \<le> 3"
  shows "is_leap (400 * a + 100 * b + 4 * c + e + 1) \<longleftrightarrow> e = 3 \<and> (c \<noteq> 24 \<or> b = 3)"
proof -
  let ?y = "400 * a + 100 * b + 4 * c + e + 1"
  have m4: "?y mod 4 = (if e = 3 then 0 else e + 1)"
  proof (cases "e = 3")
    case True
    have "?y mod 4 = 0"
      by (rule int_mod_pos_eq[where q = "100 * a + 25 * b + c + 1"]) (use True in auto)
    then show ?thesis using True by simp
  next
    case False
    have "?y mod 4 = e + 1"
      by (rule int_mod_pos_eq[where q = "100 * a + 25 * b + c"]) (use False assms in auto)
    then show ?thesis using False by simp
  qed
  have m100: "?y mod 100 = (if e = 3 \<and> c = 24 then 0 else 4 * c + e + 1)"
  proof (cases "e = 3 \<and> c = 24")
    case True
    have "?y mod 100 = 0"
      by (rule int_mod_pos_eq[where q = "4 * a + b + 1"]) (use True in auto)
    then show ?thesis using True by simp
  next
    case False
    have "?y mod 100 = 4 * c + e + 1"
      by (rule int_mod_pos_eq[where q = "4 * a + b"]) (use False assms in auto)
    then show ?thesis using False by simp
  qed
  have m400: "?y mod 400 = (if e = 3 \<and> c = 24 \<and> b = 3 then 0 else 100 * b + 4 * c + e + 1)"
  proof (cases "e = 3 \<and> c = 24 \<and> b = 3")
    case True
    have "?y mod 400 = 0"
      by (rule int_mod_pos_eq[where q = "a + 1"]) (use True in auto)
    then show ?thesis using True by simp
  next
    case False
    have "?y mod 400 = 100 * b + 4 * c + e + 1"
      by (rule int_mod_pos_eq[where q = a]) (use False assms in auto)
    then show ?thesis using False by simp
  qed
  show ?thesis
    unfolding is_leap_def m4 m100 m400 using assms by auto
qed


lemma month_day_correct:
  assumes "0 \<le> k" "k < 365"
  shows "case month_day k L of (m, d) \<Rightarrow>
           1 \<le> m \<and> m \<le> 12 \<and> 1 \<le> d
           \<and> d \<le> (if m = 2 \<and> L then 29 else DAYS_IN_MONTH ! nat m)
           \<and> DAYS_BEFORE_MONTH ! nat m + (if m > 2 \<and> L then 1 else 0) + d = k + 1"
proof -
  define m0 where "m0 = (k + 50) div 32"
  have "k + 50 = 32 * m0 + (k + 50) mod 32" unfolding m0_def by simp
  moreover have "0 \<le> (k + 50) mod 32" "(k + 50) mod 32 < 32" by simp_all
  ultimately have b: "32 * m0 \<le> k + 50" "k + 50 < 32 * m0 + 32" by linarith+
  have "1 \<le> m0" "m0 \<le> 12" using b assms by linarith+
  then have c: "m0 \<in> {1, 2, 3, 4, 5, 6, 7, 8, 9, 10, 11, 12}" by (rule month_cases)
  have e: "month_day k L =
     (let preceding = DAYS_BEFORE_MONTH ! nat m0 + (if m0 > 2 \<and> L then 1 else 0)
      in if preceding > k
         then (m0 - 1, k - (preceding
                    - (DAYS_IN_MONTH ! nat (m0 - 1) + (if m0 - 1 = 2 \<and> L then 1 else 0))) + 1)
         else (m0, k - preceding + 1))"
    unfolding month_day_def m0_def Let_def ..
  show ?thesis
    unfolding e using c b assms
    by (auto simp: DAYS_BEFORE_MONTH_def DAYS_IN_MONTH_def Let_def)
qed


lemma if_pair_shape:
  "(if A then X else (if B then (y, m', d') else (y, m, d)))
   = (if A then X
      else (y, fst (if B then (m', d') else (m, d)), snd (if B then (m', d') else (m, d))))"
  by simp

lemma ord2ymd_unfold:
  "ord2ymd n0 =
     (let n = n0 - 1;
          n400 = n div 146097; n = n mod 146097;
          n100 = n div 36524; n = n mod 36524;
          n4 = n div 1461; n = n mod 1461;
          n1 = n div 365; n = n mod 365;
          y = n400 * 400 + 1 + n100 * 100 + n4 * 4 + n1
      in if n1 = 4 \<or> n100 = 4 then (y - 1, 12, 31)
         else (y, fst (month_day n (n1 = 3 \<and> (n4 \<noteq> 24 \<or> n100 = 3))),
                  snd (month_day n (n1 = 3 \<and> (n4 \<noteq> 24 \<or> n100 = 3)))))"
  unfolding ord2ymd_def month_day_def Let_def
  by (rule if_pair_shape)

lemma ord2ymd_correct:
  assumes "1 \<le> n"
  shows "case ord2ymd n of (y, m, d) \<Rightarrow>
           1 \<le> y \<and> 1 \<le> m \<and> m \<le> 12 \<and> 1 \<le> d \<and> d \<le> days_in_month y m
           \<and> ymd2ord y m d = n"
proof -
  define a where "a = (n - 1) div 146097"
  define r1 where "r1 = (n - 1) mod 146097"
  define b where "b = r1 div 36524"
  define r2 where "r2 = r1 mod 36524"
  define c where "c = r2 div 1461"
  define r3 where "r3 = r2 mod 1461"
  define e where "e = r3 div 365"
  define k where "k = r3 mod 365"
  have n: "n - 1 = 146097 * a + r1" and r1: "0 \<le> r1" "r1 < 146097"
    unfolding a_def r1_def by simp_all
  have r1': "r1 = 36524 * b + r2" and r2: "0 \<le> r2" "r2 < 36524"
    unfolding b_def r2_def by simp_all
  have r2': "r2 = 1461 * c + r3" and r3: "0 \<le> r3" "r3 < 1461"
    unfolding c_def r3_def by simp_all
  have r3': "r3 = 365 * e + k" and k: "0 \<le> k" "k < 365"
    unfolding e_def k_def by simp_all
  have a0: "0 \<le> a" using n r1 assms by linarith
  have b0: "0 \<le> b" "b \<le> 4" using r1' r1 r2 by linarith+
  have c0: "0 \<le> c" "c \<le> 24" using r2' r2 r3 by linarith+
  have e0: "0 \<le> e" "e \<le> 4" using r3' r3 k by linarith+
  have eq: "ord2ymd n =
      (if e = 4 \<or> b = 4 then (a * 400 + 1 + b * 100 + c * 4 + e - 1, 12, 31)
       else (a * 400 + 1 + b * 100 + c * 4 + e,
             fst (month_day k (e = 3 \<and> (c \<noteq> 24 \<or> b = 3))),
             snd (month_day k (e = 3 \<and> (c \<noteq> 24 \<or> b = 3)))))"
    unfolding ord2ymd_unfold Let_def a_def r1_def b_def r2_def c_def r3_def e_def k_def ..
  consider "b = 4" | "b \<le> 3" "e = 4" | "b \<le> 3" "e \<le> 3" using b0 e0 by linarith
  then show ?thesis
  proof cases
    case 1
    then have z: "r2 = 0" using r1' r1 r2 by linarith
    then have "c = 0" "r3 = 0" using r2' c0 r3 by linarith+
    then have "e = 0" "k = 0" using r3' e0 k by linarith+
    have y: "a * 400 + 1 + b * 100 + c * 4 + e - 1 = 400 * a + 100 * 3 + 4 * 24 + 3 + 1"
      using 1 \<open>c = 0\<close> \<open>e = 0\<close> by simp
    have d: "days_before_year (400 * a + 100 * 3 + 4 * 24 + 3 + 1)
             = 146097 * a + 36524 * 3 + 1461 * 24 + 365 * 3"
      by (rule dby_decomp) simp_all
    have l: "is_leap (400 * a + 100 * 3 + 4 * 24 + 3 + 1)"
      using is_leap_decomp[of 3 24 3 a] by simp
    have nn: "n = 146097 * a + 146097" using n r1' z 1 by linarith
    show ?thesis
      unfolding eq y using 1 d l nn a0
      by (simp add: ymd2ord_def days_in_month_def days_before_month_def DAYS_IN_MONTH_def
          DAYS_BEFORE_MONTH_def)
  next
    case 2
    then have k0: "k = 0" and r3v: "r3 = 1460" using r3' r3 k by linarith+
    have c23: "c \<le> 23" using r2' r2 r3v c0 by linarith
    have y: "a * 400 + 1 + b * 100 + c * 4 + e - 1 = 400 * a + 100 * b + 4 * c + 3 + 1"
      using 2 by simp
    have d: "days_before_year (400 * a + 100 * b + 4 * c + 3 + 1)
             = 146097 * a + 36524 * b + 1461 * c + 365 * 3"
      by (rule dby_decomp) (use b0 2 c0 in simp_all)
    have l: "is_leap (400 * a + 100 * b + 4 * c + 3 + 1)"
      using is_leap_decomp[of b c 3 a] b0 2 c0 c23 by simp
    have nn: "n = 146097 * a + 36524 * b + 1461 * c + 1461" using n r1' r2' r3v by linarith
    show ?thesis
      unfolding eq y using 2 d l nn a0 b0 c0
      by (simp add: ymd2ord_def days_in_month_def days_before_month_def DAYS_IN_MONTH_def
          DAYS_BEFORE_MONTH_def)
  next
    case 3
    let ?L = "e = 3 \<and> (c \<noteq> 24 \<or> b = 3)"
    let ?y = "400 * a + 100 * b + 4 * c + e + 1"
    obtain m d where md: "month_day k ?L = (m, d)" by (cases "month_day k ?L")
    have mdc: "1 \<le> m \<and> m \<le> 12 \<and> 1 \<le> d
           \<and> d \<le> (if m = 2 \<and> ?L then 29 else DAYS_IN_MONTH ! nat m)
           \<and> DAYS_BEFORE_MONTH ! nat m + (if m > 2 \<and> ?L then 1 else 0) + d = k + 1"
      using month_day_correct[OF k, of ?L] unfolding md by simp
    have dy: "days_before_year ?y = 146097 * a + 36524 * b + 1461 * c + 365 * e"
      by (rule dby_decomp) (use b0 3 c0 e0 in simp_all)
    have l: "is_leap ?y \<longleftrightarrow> ?L"
      by (rule is_leap_decomp) (use b0 3 c0 e0 in simp_all)
    have nn: "n = 146097 * a + 36524 * b + 1461 * c + 365 * e + k + 1"
      using n r1' r2' r3' by linarith
    have y: "a * 400 + 1 + b * 100 + c * 4 + e = ?y" by simp
    have o: "ord2ymd n = (?y, m, d)" unfolding eq y using 3 md by simp
    have "1 \<le> ?y" using a0 b0 c0 e0 by linarith
    moreover have "d \<le> days_in_month ?y m" using mdc unfolding days_in_month_def l by simp
    moreover have "ymd2ord ?y m d = n"
      unfolding ymd2ord_def days_before_month_def dy l nn using mdc by linarith
    ultimately show ?thesis unfolding o using mdc by simp
  qed
qed

lemma div_step:
  fixes y q :: int
  assumes "0 < q"
  shows "y div q = (y - 1) div q + (if y mod q = 0 then 1 else 0)"
proof -
  define t where "t = (y - 1) div q"
  define r where "r = (y - 1) mod q"
  have y: "y - 1 = q * t + r" and r: "0 \<le> r" "r < q"
    unfolding t_def r_def using assms by simp_all
  show ?thesis
  proof (cases "r = q - 1")
    case True
    have "y = q * (t + 1) + 0" using y True by (simp add: algebra_simps)
    then have "y div q = t + 1" "y mod q = 0"
      using assms int_div_pos_eq[of y q "t + 1" 0] int_mod_pos_eq[of y q "t + 1" 0] by simp_all
    then show ?thesis unfolding t_def by simp
  next
    case False
    have e: "y = q * t + (r + 1)" using y by simp
    have b: "0 \<le> r + 1" "r + 1 < q" using r False by simp_all
    have "y div q = t" "y mod q = r + 1"
      using int_div_pos_eq[OF e b] int_mod_pos_eq[OF e b] by simp_all
    then show ?thesis unfolding t_def using r by simp
  qed
qed

lemma mod100_4: "(y::int) mod 100 = 0 \<Longrightarrow> y mod 4 = 0"
proof -
  assume "y mod 100 = 0"
  then have "100 dvd y" by (simp add: mod_eq_0_iff_dvd)
  moreover have "(4::int) dvd 100" by simp
  ultimately have "4 dvd y" by (rule dvd_trans[rotated])
  then show ?thesis by (simp add: mod_eq_0_iff_dvd)
qed

lemma mod400_100: "(y::int) mod 400 = 0 \<Longrightarrow> y mod 100 = 0"
proof -
  assume "y mod 400 = 0"
  then have "400 dvd y" by (simp add: mod_eq_0_iff_dvd)
  moreover have "(100::int) dvd 400" by simp
  ultimately have "100 dvd y" by (rule dvd_trans[rotated])
  then show ?thesis by (simp add: mod_eq_0_iff_dvd)
qed


lemma leap_indicator:
  "(if (y::int) mod 4 = 0 then 1 else 0) - (if y mod 100 = 0 then 1 else 0)
     + (if y mod 400 = 0 then 1 else 0) = (if is_leap y then 1 else (0::int))"
proof (cases "y mod 400 = 0")
  case True
  then have "y mod 100 = 0" by (rule mod400_100)
  then have "y mod 4 = 0" by (rule mod100_4)
  show ?thesis unfolding is_leap_def by (simp only: True \<open>y mod 100 = 0\<close> \<open>y mod 4 = 0\<close>) simp
next
  case f400: False
  show ?thesis
  proof (cases "y mod 100 = 0")
    case True
    then have "y mod 4 = 0" by (rule mod100_4)
    show ?thesis unfolding is_leap_def by (simp only: True f400 \<open>y mod 4 = 0\<close>) simp
  next
    case f100: False
    show ?thesis
    proof (cases "y mod 4 = 0")
      case True
      show ?thesis unfolding is_leap_def by (simp only: True f400 f100) simp
    next
      case False
      show ?thesis unfolding is_leap_def by (simp only: False f400 f100) simp
    qed
  qed
qed


lemma dby_step:
  "days_before_year (y + 1) = days_before_year y + 365 + (if is_leap y then 1 else 0)"
proof -
  define p4 where "p4 = (y - 1) div 4"
  define p100 where "p100 = (y - 1) div 100"
  define p400 where "p400 = (y - 1) div 400"
  define i4 :: int where "i4 = (if y mod 4 = 0 then 1 else 0)"
  define i100 :: int where "i100 = (if y mod 100 = 0 then 1 else 0)"
  define i400 :: int where "i400 = (if y mod 400 = 0 then 1 else 0)"
  define l :: int where "l = (if is_leap y then 1 else 0)"
  have e4: "y div 4 = p4 + i4" unfolding p4_def i4_def by (rule div_step) simp
  have e100: "y div 100 = p100 + i100" unfolding p100_def i100_def by (rule div_step) simp
  have e400: "y div 400 = p400 + i400" unfolding p400_def i400_def by (rule div_step) simp
  have l: "i4 - i100 + i400 = l"
    unfolding i4_def i100_def i400_def l_def by (rule leap_indicator)
  have "y + 1 - 1 = y" by simp
  then have "days_before_year (y + 1) = y * 365 + y div 4 - y div 100 + y div 400"
    unfolding days_before_year_def Let_def by (simp only:)
  then have a: "days_before_year (y + 1) = y * 365 + (p4 + i4) - (p100 + i100) + (p400 + i400)"
    unfolding e4 e100 e400 .
  have b: "days_before_year y = (y - 1) * 365 + p4 - p100 + p400"
    unfolding days_before_year_def Let_def p4_def p100_def p400_def ..
  have "days_before_year (y + 1) = days_before_year y + 365 + l"
    unfolding a b using l by (simp add: algebra_simps)
  then show ?thesis unfolding l_def .
qed


lemma dby_mono: "y \<le> y' \<Longrightarrow> days_before_year y \<le> days_before_year y'"
proof (induction y' rule: int_ge_induct)
  case base
  then show ?case by simp
next
  case (step i)
  have "days_before_year i \<le> days_before_year (i + 1)"
    unfolding dby_step by simp
  then show ?case using step by linarith
qed

lemma dby_one: "days_before_year 1 = 0"
  by (simp add: days_before_year_def)

lemma dby_10000: "days_before_year 10000 = 3652059"
  by (simp add: days_before_year_def)

lemma dbm_succ:
  assumes "1 \<le> m" "m < 12"
  shows "days_before_month y (m + 1) = days_before_month y m + days_in_month y m"
proof -
  have "m \<le> 12" using assms by simp
  from month_cases[OF assms(1) this] assms(2) show ?thesis
    by (auto simp: days_before_month_def days_in_month_def DAYS_BEFORE_MONTH_def
        DAYS_IN_MONTH_def)
qed

lemma dbm_mono:
  assumes "1 \<le> m" "m \<le> m'"
  shows "m' \<le> 12 \<longrightarrow> days_before_month y m \<le> days_before_month y m'"
  using assms(2)
proof (induction m' rule: int_ge_induct)
  case base
  then show ?case by simp
next
  case (step i)
  show ?case
  proof
    assume b: "i + 1 \<le> 12"
    then have i: "1 \<le> i" "i < 12" "i \<le> 12" using step(1) assms(1) by linarith+
    have "days_before_month y i \<le> days_before_month y (i + 1)"
      unfolding dbm_succ[OF i(1,2)] using days_in_month_bounds[OF i(1,3), of y] by linarith
    then show "days_before_month y m \<le> days_before_month y (i + 1)"
      using step(2) i by linarith
  qed
qed

lemma dbm_next:
  assumes "1 \<le> m" "m < m'" "m' \<le> 12"
  shows "days_before_month y m + days_in_month y m \<le> days_before_month y m'"
proof -
  have m: "m < 12" "1 \<le> m + 1" "m + 1 \<le> m'" using assms by linarith+
  show ?thesis
    unfolding dbm_succ[OF assms(1) m(1), symmetric]
    using dbm_mono[OF m(2,3), of y] assms(3) by blast
qed

lemma dbm_year:
  assumes "1 \<le> m" "m \<le> 12"
  shows "0 \<le> days_before_month y m
         \<and> days_before_month y m + days_in_month y m \<le> 365 + (if is_leap y then 1 else 0)"
  using month_cases[OF assms]
  by (auto simp: days_before_month_def days_in_month_def DAYS_BEFORE_MONTH_def
      DAYS_IN_MONTH_def)


lemma ymd2ord_less:
  assumes v: "1 \<le> m" "m \<le> 12" "1 \<le> d" "d \<le> days_in_month y m"
    and v': "1 \<le> m'" "m' \<le> 12" "1 \<le> d'" "d' \<le> days_in_month y' m'"
    and lt: "y < y' \<or> (y = y' \<and> (m < m' \<or> (m = m' \<and> d < d')))"
  shows "ymd2ord y m d < ymd2ord y' m' d'"
proof -
  consider "y < y'" | "y = y'" "m < m'" | "y = y'" "m = m'" "d < d'" using lt by blast
  then show ?thesis
  proof cases
    case 1
    have "days_before_month y m + d \<le> 365 + (if is_leap y then 1 else 0)"
      using dbm_year[OF v(1,2), of y] v(4) by linarith
    then have "ymd2ord y m d \<le> days_before_year (y + 1)"
      unfolding ymd2ord_def dby_step by linarith
    also have "\<dots> \<le> days_before_year y'"
      by (rule dby_mono) (use 1 in simp)
    also have "\<dots> < ymd2ord y' m' d'"
      unfolding ymd2ord_def using dbm_year[OF v'(1,2), of y'] v'(3) by linarith
    finally show ?thesis .
  next
    case 2
    have "days_before_month y m + d \<le> days_before_month y m'"
      using dbm_next[OF v(1) 2(2) v'(2), of y] v(4) by linarith
    then show ?thesis unfolding ymd2ord_def 2(1)[symmetric] using v'(3) by linarith
  next
    case 3
    then show ?thesis unfolding ymd2ord_def by simp
  qed
qed

lemma ymd2ord_inj:
  assumes v: "1 \<le> m" "m \<le> 12" "1 \<le> d" "d \<le> days_in_month y m"
    and v': "1 \<le> m'" "m' \<le> 12" "1 \<le> d'" "d' \<le> days_in_month y' m'"
    and eq: "ymd2ord y m d = ymd2ord y' m' d'"
  shows "y = y' \<and> m = m' \<and> d = d'"
proof (rule ccontr)
  assume "\<not> (y = y' \<and> m = m' \<and> d = d')"
  then have "(y < y' \<or> (y = y' \<and> (m < m' \<or> (m = m' \<and> d < d'))))
           \<or> (y' < y \<or> (y' = y \<and> (m' < m \<or> (m' = m \<and> d' < d))))"
    by linarith
  then show False
    using ymd2ord_less[OF v v'] ymd2ord_less[OF v' v] eq by fastforce
qed

lemma ymd2ord_bounds:
  assumes "1 \<le> y" "y \<le> 9999" "1 \<le> m" "m \<le> 12" "1 \<le> d" "d \<le> days_in_month y m"
  shows "1 \<le> ymd2ord y m d \<and> ymd2ord y m d \<le> 3652059"
proof -
  have "0 \<le> days_before_year y" using dby_mono[OF assms(1)] dby_one by simp
  then have lo: "1 \<le> ymd2ord y m d"
    unfolding ymd2ord_def using dbm_year[OF assms(3,4), of y] assms(5) by linarith
  have "days_before_month y m + d \<le> 365 + (if is_leap y then 1 else 0)"
    using dbm_year[OF assms(3,4), of y] assms(6) by linarith
  then have "ymd2ord y m d \<le> days_before_year (y + 1)"
    unfolding ymd2ord_def dby_step by linarith
  also have "\<dots> \<le> days_before_year 10000"
    by (rule dby_mono) (use assms(2) in simp)
  finally show ?thesis using lo dby_10000 by simp
qed

lemma ord2ymd_valid:
  assumes "1 \<le> n" "n \<le> MAXORDINAL"
  shows "case ord2ymd n of (y, m, d) \<Rightarrow> check_date_fields y m d \<and> ymd2ord y m d = n"
proof -
  obtain y m d where o: "ord2ymd n = (y, m, d)" by (cases "ord2ymd n")
  have c: "1 \<le> y" "1 \<le> m" "m \<le> 12" "1 \<le> d" "d \<le> days_in_month y m"
    "ymd2ord y m d = n"
    using ord2ymd_correct[OF assms(1)] unfolding o by simp_all
  have "y \<le> 9999"
  proof (rule ccontr)
    assume "\<not> y \<le> 9999"
    then have "days_before_year 10000 \<le> days_before_year y" by (intro dby_mono) simp
    then have "3652059 < ymd2ord y m d"
      unfolding ymd2ord_def dby_10000[symmetric] using dbm_year[OF c(2,3), of y] c(4)
      by linarith
    then show False using c(6) assms(2) by (simp add: MAXORDINAL_def)
  qed
  then show ?thesis
    unfolding o using c by (simp add: check_date_fields_def MINYEAR_def MAXYEAR_def)
qed

lemma ord2ymd_ymd2ord:
  assumes "check_date_fields y m d"
  shows "ord2ymd (ymd2ord y m d) = (y, m, d)"
proof -
  have v: "1 \<le> y" "y \<le> 9999" "1 \<le> m" "m \<le> 12" "1 \<le> d" "d \<le> days_in_month y m"
    using assms by (simp_all add: check_date_fields_def MINYEAR_def MAXYEAR_def)
  have b: "1 \<le> ymd2ord y m d" "ymd2ord y m d \<le> MAXORDINAL"
    using ymd2ord_bounds[OF v] by (simp_all add: MAXORDINAL_def)
  obtain y' m' d' where o: "ord2ymd (ymd2ord y m d) = (y', m', d')"
    by (cases "ord2ymd (ymd2ord y m d)")
  have c: "check_date_fields y' m' d'" "ymd2ord y' m' d' = ymd2ord y m d"
    using ord2ymd_valid[OF b] unfolding o by simp_all
  have v': "1 \<le> m'" "m' \<le> 12" "1 \<le> d'" "d' \<le> days_in_month y' m'"
    using c(1) by (simp_all add: check_date_fields_def)
  show ?thesis
    unfolding o using ymd2ord_inj[OF v' v(3-6) c(2)] by simp
qed

lemma ord2ymd_later:
  assumes "check_date_fields y m d" "0 \<le> k" "ymd2ord y m d + k \<le> MAXORDINAL"
    and "ord2ymd (ymd2ord y m d + k) = (y', m', d')"
  shows "check_date_fields y' m' d'
         \<and> \<not> (y' < y \<or> (y' = y \<and> (m' < m \<or> (m' = m \<and> d' < d))))"
proof -
  have v: "1 \<le> y" "y \<le> 9999" "1 \<le> m" "m \<le> 12" "1 \<le> d" "d \<le> days_in_month y m"
    using assms(1) by (simp_all add: check_date_fields_def MINYEAR_def MAXYEAR_def)
  have b: "1 \<le> ymd2ord y m d + k"
    using ymd2ord_bounds[OF v] assms(2) by linarith
  have c: "check_date_fields y' m' d'" "ymd2ord y' m' d' = ymd2ord y m d + k"
    using ord2ymd_valid[OF b assms(3)] unfolding assms(4) by simp_all
  have v': "1 \<le> m'" "m' \<le> 12" "1 \<le> d'" "d' \<le> days_in_month y' m'"
    using c(1) by (simp_all add: check_date_fields_def)
  have "\<not> (y' < y \<or> (y' = y \<and> (m' < m \<or> (m' = m \<and> d' < d))))"
  proof
    assume "y' < y \<or> (y' = y \<and> (m' < m \<or> (m' = m \<and> d' < d)))"
    from ymd2ord_less[OF v' v(3-6) this] show False using c(2) assms(2) by linarith
  qed
  then show ?thesis using c(1) by simp
qed

section \<open>Upcoming birthdays\<close>

lemma replace_year_ok:
  assumes "valid_datetime b" "check_date_fields y (month b) (day b)"
  shows "replace_year b y = Inr (b\<lparr>year := y\<rparr>)"
  using assms by (cases b) (simp add: replace_year_def datetime_new_def valid_datetime_def)

lemma upcoming_step:
  assumes "projectable today r"
  shows "upcoming_loop today e (r # rs) acc
         = upcoming_loop today e rs (if in_window today e r then acc @ [r] else acc)"
proof (cases "birthday r")
  case None
  then show ?thesis by (simp add: in_window_def)
next
  case (Some bb)
  let ?b = "birthday_value bb"
  have v: "valid_datetime ?b" and c1: "check_date_fields (year today) (month ?b) (day ?b)"
    and c2: "dt_lt (?b\<lparr>year := year today\<rparr>) today \<Longrightarrow>
             check_date_fields (year today + 1) (month ?b) (day ?b)"
    using assms Some by (simp_all add: projectable_def)
  have r1: "replace_year ?b (year today) = Inr (?b\<lparr>year := year today\<rparr>)"
    by (rule replace_year_ok[OF v c1])
  show ?thesis
  proof (cases "dt_lt (?b\<lparr>year := year today\<rparr>) today")
    case True
    have r2: "replace_year ?b (year today + 1) = Inr (?b\<lparr>year := year today + 1\<rparr>)"
      by (rule replace_year_ok[OF v c2[OF True]])
    have n: "\<not> dt_le today (?b\<lparr>year := year today\<rparr>)"
      using True by (simp add: dt_lt_def dt_le_def)
    show ?thesis
      using True n by (simp add: Some r1 r2 in_window_def projected_def)
  next
    case False
    then show ?thesis
      by (simp add: Some r1 in_window_def projected_def)
  qed
qed

lemma upcoming_loop_filter:
  "list_all (projectable today) rs \<Longrightarrow>
   upcoming_loop today e rs acc = Inr (acc @ filter (in_window today e) rs)"
proof (induction rs arbitrary: acc)
  case Nil
  then show ?case by simp
next
  case (Cons r rs)
  then have p: "projectable today r" and ps: "list_all (projectable today) rs" by simp_all
  show ?case
    unfolding upcoming_step[OF p] Cons.IH[OF ps] by simp
qed

lemma toordinal_bounds:
  assumes "valid_datetime t"
  shows "1 \<le> toordinal t \<and> toordinal t \<le> MAXORDINAL"
proof -
  have "1 \<le> year t" "year t \<le> 9999" "1 \<le> month t" "month t \<le> 12" "1 \<le> day t"
    "day t \<le> days_in_month (year t) (month t)"
    using assms
    by (simp_all add: valid_datetime_def check_date_fields_def MINYEAR_def MAXYEAR_def)
  from ymd2ord_bounds[OF this] show ?thesis by (simp add: toordinal_def MAXORDINAL_def)
qed

lemma add_days_ok:
  assumes "valid_datetime t" "0 \<le> n" "toordinal t + n \<le> MAXORDINAL"
  shows "add_days t n = Inr (shifted t n)"
proof -
  have "1 \<le> toordinal t" using toordinal_bounds[OF assms(1)] by simp
  then have "0 < toordinal t + n" "\<bar>n\<bar> \<le> 999999999"
    using assms(2,3) by (simp_all add: MAXORDINAL_def)
  then show ?thesis using assms(3) by (simp add: add_days_def)
qed

lemma dt_le_refl: "dt_le t t"
  by (simp add: dt_le_def)

lemma dt_le_antisym: "dt_le a b \<Longrightarrow> dt_le b a \<Longrightarrow> a = b"
proof -
  assume "dt_le a b" "dt_le b a"
  then have "dt_key a = dt_key b" unfolding dt_le_def by (rule antisym)
  then show "a = b" by (cases a, cases b) (simp add: dt_key_def)
qed

lemma shifted_zero:
  assumes "valid_datetime t"
  shows "shifted t 0 = t"
proof -
  have "check_date_fields (year t) (month t) (day t)"
    using assms by (simp add: valid_datetime_def)
  from ord2ymd_ymd2ord[OF this] show ?thesis
    by (cases t) (simp add: shifted_def toordinal_def)
qed

lemma dt_le_shifted:
  assumes "valid_datetime t" "0 \<le> n" "toordinal t + n \<le> MAXORDINAL"
  shows "dt_le t (shifted t n)"
proof -
  have c: "check_date_fields (year t) (month t) (day t)"
    using assms(1) by (simp add: valid_datetime_def)
  obtain y m d where o: "ord2ymd (ymd2ord (year t) (month t) (day t) + n) = (y, m, d)"
    by (cases "ord2ymd (ymd2ord (year t) (month t) (day t) + n)")
  have l: "\<not> (y < year t \<or> (y = year t \<and> (m < month t \<or> (m = month t \<and> d < day t))))"
    using ord2ymd_later[OF c assms(2) assms(3)[unfolded toordinal_def] o] by simp
  have s: "shifted t n = t\<lparr>year := y, month := m, day := d\<rparr>"
    by (simp add: shifted_def toordinal_def o)
  show ?thesis
    unfolding s dt_le_def dt_key_def using l by auto
qed

lemma get_upcoming_birthdays_filter:
  assumes "valid_datetime today" "0 \<le> days" "toordinal today + days \<le> MAXORDINAL"
    and "list_all (projectable today) (book_values book)"
  shows "get_upcoming_birthdays book days today
         = Inr (filter (in_window today (shifted today days)) (book_values book))"
  unfolding get_upcoming_birthdays_def add_days_ok[OF assms(1-3)]
  using upcoming_loop_filter[OF assms(4), of "shifted today days" "[]"] by simp

text \<open>
  The projections exist, in particular, for every birthday that is not a 29 February, in
  every year before 9999.
\<close>

lemma projectable_not_leap_day:
  assumes "valid_datetime today" "year today < 9999"
    and "birthday r = Some b" "valid_datetime (birthday_value b)"
    and "\<not> (month (birthday_value b) = 2 \<and> day (birthday_value b) = 29)"
  shows "projectable today r"
proof -
  let ?m = "month (birthday_value b)" and ?d = "day (birthday_value b)"
  have m: "1 \<le> ?m" "?m \<le> 12" and d: "1 \<le> ?d"
    "?d \<le> days_in_month (year (birthday_value b)) ?m"
    using assms(4) by (simp_all add: valid_datetime_def check_date_fields_def)
  have "?d \<le> days_in_month y ?m" for y
    using d(2) assms(5) by (auto simp: days_in_month_def DAYS_IN_MONTH_def split: if_splits)
  moreover have "1 \<le> year today"
    using assms(1) by (simp add: valid_datetime_def check_date_fields_def MINYEAR_def)
  ultimately show ?thesis
    using assms(2,3,4) m d(1)
    by (simp add: projectable_def check_date_fields_def MINYEAR_def MAXYEAR_def)
qed

text \<open>
  What the loop computes, in terms of the clock reading: when the reading plus the number
  of days is a date the library can represent and the projections of all birthdays exist,
  the result lists, in the order of the book, the records whose projected birthday lies
  between the reading and the reading plus the number of days, both as dates with time
  of day. With 0 days these are the records whose projected birthday equals the reading.
\<close>

lemma upcoming_birthdays_window:
  assumes "valid_datetime today" "0 \<le> days" "toordinal today + days \<le> MAXORDINAL"
    and "list_all (projectable today) (book_values book)"
  shows "get_upcoming_birthdays book days today
           = Inr (filter (in_window today (shifted today days)) (book_values book))
         \<and> (\<forall>r \<in> set (book_values book). \<forall>b. birthday r = Some b
               \<and> (projected today (birthday_value b) = today
                  \<or> projected today (birthday_value b) = shifted today days)
              \<longrightarrow> r \<in> set (filter (in_window today (shifted today days)) (book_values book)))"
proof (intro conjI ballI allI impI)
  show "get_upcoming_birthdays book days today
          = Inr (filter (in_window today (shifted today days)) (book_values book))"
    by (rule get_upcoming_birthdays_filter[OF assms])
next
  fix r b
  assume r: "r \<in> set (book_values book)"
    and b: "birthday r = Some b
            \<and> (projected today (birthday_value b) = today
               \<or> projected today (birthday_value b) = shifted today days)"
  have le: "dt_le today (shifted today days)" by (rule dt_le_shifted[OF assms(1-3)])
  have "in_window today (shifted today days) r"
    using b le by (auto simp: in_window_def dt_le_refl)
  then show "r \<in> set (filter (in_window today (shifted today days)) (book_values book))"
    using r by simp
qed

lemma upcoming_birthdays_today:
  assumes "valid_datetime today" "list_all (projectable today) (book_values book)"
  shows "get_upcoming_birthdays book 0 today = Inr (filter (on_day today) (book_values book))"
proof -
  have z: "toordinal today + 0 \<le> MAXORDINAL" using toordinal_bounds[OF assms(1)] by simp
  have "in_window today today r \<longleftrightarrow> on_day today r" for r
    by (auto simp: in_window_def on_day_def dt_le_refl dest: dt_le_antisym split: option.splits)
  then have "filter (in_window today today) (book_values book)
             = filter (on_day today) (book_values book)"
    by (intro filter_cong) simp_all
  then show ?thesis
    using get_upcoming_birthdays_filter[OF assms(1) _ z assms(2)]
    by (simp add: shifted_zero[OF assms(1)])
qed

text \<open>
  The sum \<open>today + timedelta(days)\<close> raises \<open>OverflowError\<close> when the number of days is
  beyond what a \<open>timedelta\<close> or a date can hold, and in the last year the library can
  represent a birthday already past has no projection to the next year.
\<close>

lemma upcoming_birthdays_overflow:
  "get_upcoming_birthdays
     [(''John'', \<lparr>name = Name ''John'', phones = [],
        birthday = Some (Birthday \<lparr>year = 1990, month = 1, day = 1, hour = 0, minute = 0,
                                    second = 0, microsecond = 0\<rparr>)\<rparr>)]
     1000000000
     \<lparr>year = 2024, month = 12, day = 30, hour = 0, minute = 0, second = 0, microsecond = 0\<rparr>
   = Inl OverflowError"
  by code_simp

lemma upcoming_birthdays_last_year:
  "get_upcoming_birthdays
     [(''John'', \<lparr>name = Name ''John'', phones = [],
        birthday = Some (Birthday \<lparr>year = 1990, month = 1, day = 1, hour = 0, minute = 0,
                                    second = 0, microsecond = 0\<rparr>)\<rparr>)]
     0
     \<lparr>year = 9999, month = 6, day = 1, hour = 0, minute = 0, second = 0, microsecond = 0\<rparr>
   = Inl ValueError"
  by code_simp

text \<open>
  A birthday on 29 February has no projection to a year that is not a leap year:
  \<open>replace\<close> raises \<open>ValueError\<close>, and so do both operations.
\<close>

lemma leap_day_projection_raises:
  "get_upcoming_birthdays
     [(''John'', \<lparr>name = Name ''John'', phones = [],
        birthday = Some (Birthday \<lparr>year = 2000, month = 2, day = 29, hour = 0, minute = 0,
                                    second = 0, microsecond = 0\<rparr>)\<rparr>)]
     7
     \<lparr>year = 2023, month = 6, day = 1, hour = 0, minute = 0, second = 0, microsecond = 0\<rparr>
   = Inl ValueError
   \<and> days_to_birthday
     \<lparr>name = Name ''John'', phones = [],
        birthday = Some (Birthday \<lparr>year = 2000, month = 2, day = 29, hour = 0, minute = 0,
                                    second = 0, microsecond = 0\<rparr>)\<rparr>
     \<lparr>year = 2023, month = 6, day = 1, hour = 0, minute = 0, second = 0, microsecond = 0\<rparr>
   = Inl ValueError"
  by code_simp

text \<open>
  C1: the inclusive lower bound is missed. The projected birthday is a date at midnight,
  and it is compared with a clock reading that carries the time of day: on 01.01.2024 at
  noon the birthday of 01.01 is already before \<open>today\<close>, it is projected to 2025 and is
  not listed for the next 7 days, although it falls on today's date. At midnight exactly
  it is listed.
\<close>

theorem upcoming_birthdays_misses_today:
  "get_upcoming_birthdays
     [(''John'', \<lparr>name = Name ''John'', phones = [Phone ''1234567890''],
        birthday = Some (Birthday \<lparr>year = 1990, month = 1, day = 1, hour = 0, minute = 0,
                                    second = 0, microsecond = 0\<rparr>)\<rparr>),
      (''Jane'', \<lparr>name = Name ''Jane'', phones = [Phone ''9876543210''],
        birthday = Some (Birthday \<lparr>year = 1995, month = 5, day = 5, hour = 0, minute = 0,
                                    second = 0, microsecond = 0\<rparr>)\<rparr>)]
     7
     \<lparr>year = 2024, month = 1, day = 1, hour = 12, minute = 0, second = 0, microsecond = 0\<rparr>
   = Inr []
   \<and> get_upcoming_birthdays
     [(''John'', \<lparr>name = Name ''John'', phones = [Phone ''1234567890''],
        birthday = Some (Birthday \<lparr>year = 1990, month = 1, day = 1, hour = 0, minute = 0,
                                    second = 0, microsecond = 0\<rparr>)\<rparr>),
      (''Jane'', \<lparr>name = Name ''Jane'', phones = [Phone ''9876543210''],
        birthday = Some (Birthday \<lparr>year = 1995, month = 5, day = 5, hour = 0, minute = 0,
                                    second = 0, microsecond = 0\<rparr>)\<rparr>)]
     7
     \<lparr>year = 2024, month = 1, day = 1, hour = 0, minute = 0, second = 0, microsecond = 0\<rparr>
   = Inr [\<lparr>name = Name ''John'', phones = [Phone ''1234567890''],
        birthday = Some (Birthday \<lparr>year = 1990, month = 1, day = 1, hour = 0, minute = 0,
                                    second = 0, microsecond = 0\<rparr>)\<rparr>]
   \<and> fst (get_upcoming_birthdays_clock
     [(''John'', \<lparr>name = Name ''John'', phones = [Phone ''1234567890''],
        birthday = Some (Birthday \<lparr>year = 1990, month = 1, day = 1, hour = 0, minute = 0,
                                    second = 0, microsecond = 0\<rparr>)\<rparr>),
      (''Jane'', \<lparr>name = Name ''Jane'', phones = [Phone ''9876543210''],
        birthday = Some (Birthday \<lparr>year = 1995, month = 5, day = 5, hour = 0, minute = 0,
                                    second = 0, microsecond = 0\<rparr>)\<rparr>)]
     7
     \<lparr>readings = (\<lambda>n. \<lparr>year = 2024, month = 1, day = 1, hour = 12, minute = 0, second = 0,
                         microsecond = 0\<rparr>), taken = 0\<rparr>)
   = Inr []"
  by code_simp

text \<open>
  C5: with 0 days and the clock reading 05.05.2024 at 09:30, the record whose birthday
  projects onto 05.05.2024 is not returned: its projection, at midnight, is before the
  reading, and the projection to 2025 is outside the window. The result is empty at every
  reading of that day but midnight.
\<close>

theorem upcoming_birthdays_zero_days_misses_today:
  "get_upcoming_birthdays
     [(''John'', \<lparr>name = Name ''John'', phones = [Phone ''1234567890''],
        birthday = Some (Birthday \<lparr>year = 1990, month = 1, day = 1, hour = 0, minute = 0,
                                    second = 0, microsecond = 0\<rparr>)\<rparr>),
      (''Jane'', \<lparr>name = Name ''Jane'', phones = [Phone ''9876543210''],
        birthday = Some (Birthday \<lparr>year = 1995, month = 5, day = 5, hour = 0, minute = 0,
                                    second = 0, microsecond = 0\<rparr>)\<rparr>)]
     0
     \<lparr>year = 2024, month = 5, day = 5, hour = 9, minute = 30, second = 0, microsecond = 0\<rparr>
   = Inr []
   \<and> get_upcoming_birthdays
     [(''John'', \<lparr>name = Name ''John'', phones = [Phone ''1234567890''],
        birthday = Some (Birthday \<lparr>year = 1990, month = 1, day = 1, hour = 0, minute = 0,
                                    second = 0, microsecond = 0\<rparr>)\<rparr>),
      (''Jane'', \<lparr>name = Name ''Jane'', phones = [Phone ''9876543210''],
        birthday = Some (Birthday \<lparr>year = 1995, month = 5, day = 5, hour = 0, minute = 0,
                                    second = 0, microsecond = 0\<rparr>)\<rparr>)]
     0
     \<lparr>year = 2024, month = 5, day = 5, hour = 0, minute = 0, second = 0, microsecond = 0\<rparr>
   = Inr [\<lparr>name = Name ''Jane'', phones = [Phone ''9876543210''],
        birthday = Some (Birthday \<lparr>year = 1995, month = 5, day = 5, hour = 0, minute = 0,
                                    second = 0, microsecond = 0\<rparr>)\<rparr>]
   \<and> fst (get_upcoming_birthdays_clock
     [(''John'', \<lparr>name = Name ''John'', phones = [Phone ''1234567890''],
        birthday = Some (Birthday \<lparr>year = 1990, month = 1, day = 1, hour = 0, minute = 0,
                                    second = 0, microsecond = 0\<rparr>)\<rparr>),
      (''Jane'', \<lparr>name = Name ''Jane'', phones = [Phone ''9876543210''],
        birthday = Some (Birthday \<lparr>year = 1995, month = 5, day = 5, hour = 0, minute = 0,
                                    second = 0, microsecond = 0\<rparr>)\<rparr>)]
     0
     \<lparr>readings = (\<lambda>n. \<lparr>year = 2024, month = 5, day = 5, hour = 9, minute = 30, second = 0,
                         microsecond = 0\<rparr>), taken = 0\<rparr>)
   = Inr []"
  by code_simp

end
